theory Spec2Isabelle
  imports Complex_Main "HOL-Library.Multiset" "HOL-Library.AList"
begin

section \<open>Text and JSON values\<close>

text \<open>
  The program (\<^verbatim>\<open>src/app.js\<close>) exchanges chat messages as JSON text over Bluetooth
  characteristics and keeps them in an IndexedDB object store.

  Text is modelled as its UTF-8 byte sequence (\<^typ>\<open>string\<close>): a JavaScript string is
  represented by the bytes \<^verbatim>\<open>TextEncoder\<close> produces for it. The JSON grammar is ASCII outside
  string literals and copies every byte from \<open>0x80\<close> on unchanged inside them, so
  \<^verbatim>\<open>JSON.stringify\<close> and \<^verbatim>\<open>JSON.parse\<close> act on this representation byte by byte.

  A JSON number is modelled by the exact value of its literal (\<^typ>\<open>rat\<close>); the rounding to an
  IEEE double that JavaScript applies is not modelled, and is the identity on the integers up
  to \<open>2^53\<close>, which cover every \<^verbatim>\<open>Date\<close> time value.
\<close>

datatype json =
    JNull
  | JBool bool
  | JNum rat
  | JStr string
  | JArr "json list"
  | JObj "(string \<times> json) list"

text \<open>
  Property read \<^verbatim>\<open>value.name\<close> on a non-null value that \<^verbatim>\<open>JSON.parse\<close> produced;
  \<open>None\<close> is \<^verbatim>\<open>undefined\<close>. A key that occurs twice in the text keeps its last value.
  The names read by the program (\<^verbatim>\<open>sender\<close>, \<^verbatim>\<open>text\<close>, \<^verbatim>\<open>timestamp\<close>, \<^verbatim>\<open>id\<close>) are
  not defined on any prototype, so only objects have them.
\<close>

fun get_prop :: "json \<Rightarrow> string \<Rightarrow> json option" where
  "get_prop (JObj kvs) k = map_of (rev kvs) k"
| "get_prop _ k = None"

subsection \<open>Characters\<close>

definition is_json_ws :: "char \<Rightarrow> bool" where
  "is_json_ws c \<longleftrightarrow> c = CHR 0x20 \<or> c = CHR 0x09 \<or> c = CHR 0x0A \<or> c = CHR 0x0D"

definition skip_ws :: "string \<Rightarrow> string" where
  "skip_ws = dropWhile is_json_ws"

definition is_digit :: "char \<Rightarrow> bool" where
  "is_digit c \<longleftrightarrow> 48 \<le> (of_char c :: nat) \<and> (of_char c :: nat) \<le> 57"

definition digit_val :: "char \<Rightarrow> nat" where
  "digit_val c = of_char c - 48"

definition digit_char :: "nat \<Rightarrow> char" where
  "digit_char d = char_of (48 + d)"

definition hex_val :: "char \<Rightarrow> nat option" where
  "hex_val c =
     (let n = (of_char c :: nat) in
      if 48 \<le> n \<and> n \<le> 57 then Some (n - 48)
      else if 97 \<le> n \<and> n \<le> 102 then Some (n - 87)
      else if 65 \<le> n \<and> n \<le> 70 then Some (n - 55)
      else None)"

definition hex_char :: "nat \<Rightarrow> char" where
  "hex_char d = (if d < 10 then char_of (48 + d) else char_of (87 + d))"

definition hex4 :: "char \<Rightarrow> char \<Rightarrow> char \<Rightarrow> char \<Rightarrow> nat option" where
  "hex4 a b c d =
     (case (hex_val a, hex_val b, hex_val c, hex_val d) of
        (Some w, Some x, Some y, Some z) \<Rightarrow> Some (4096 * w + 256 * x + 16 * y + z)
      | _ \<Rightarrow> None)"

text \<open>UTF-8 bytes of a code point (a lone surrogate is kept as its three-byte form).\<close>

definition utf8 :: "nat \<Rightarrow> string" where
  "utf8 n =
     (if n < 0x80 then [char_of n]
      else if n < 0x800 then [char_of (0xC0 + n div 64), char_of (0x80 + n mod 64)]
      else if n < 0x10000 then
        [char_of (0xE0 + n div 4096), char_of (0x80 + n div 64 mod 64), char_of (0x80 + n mod 64)]
      else
        [char_of (0xF0 + n div 262144), char_of (0x80 + n div 4096 mod 64),
         char_of (0x80 + n div 64 mod 64), char_of (0x80 + n mod 64)])"

subsection \<open>\<^verbatim>\<open>JSON.parse\<close>\<close>

text \<open>
  String literals. \<open>parse_chars\<close> reads the characters after the opening quote up to the
  closing one. An escape \<^verbatim>\<open>\uXXXX\<close> denotes a UTF-16 code unit; a high surrogate directly
  followed by an escaped low surrogate denotes one code point.
\<close>

definition unescape :: "char \<Rightarrow> char option" where
  "unescape e =
     (if e = CHR 0x22 then Some (CHR 0x22)
      else if e = CHR 0x5C then Some (CHR 0x5C)
      else if e = CHR ''/'' then Some (CHR ''/'')
      else if e = CHR ''b'' then Some (CHR 0x08)
      else if e = CHR ''f'' then Some (CHR 0x0C)
      else if e = CHR ''n'' then Some (CHR 0x0A)
      else if e = CHR ''r'' then Some (CHR 0x0D)
      else if e = CHR ''t'' then Some (CHR 0x09)
      else None)"

definition low_surrogate_escape :: "string \<Rightarrow> nat option" where
  "low_surrogate_escape s =
     (case s of
        bs # u # a # b # c # d # r \<Rightarrow>
          if bs = CHR 0x5C \<and> u = CHR ''u'' then
            (case hex4 a b c d of
               Some l \<Rightarrow> if 0xDC00 \<le> l \<and> l \<le> 0xDFFF then Some l else None
             | None \<Rightarrow> None)
          else None
      | _ \<Rightarrow> None)"

definition prepend :: "string \<Rightarrow> (string \<times> string) option \<Rightarrow> (string \<times> string) option" where
  "prepend x r = (case r of None \<Rightarrow> None | Some (y, rest) \<Rightarrow> Some (x @ y, rest))"

function parse_chars :: "string \<Rightarrow> (string \<times> string) option" where
  "parse_chars [] = None"
| "parse_chars (c # cs) =
     (if c = CHR 0x22 then Some ([], cs)
      else if c = CHR 0x5C then
        (case cs of
           [] \<Rightarrow> None
         | e # r \<Rightarrow>
             if e = CHR ''u'' then
               (case r of
                  h1 # h2 # h3 # h4 # r' \<Rightarrow>
                    (case hex4 h1 h2 h3 h4 of
                       None \<Rightarrow> None
                     | Some u \<Rightarrow>
                         (case (if 0xD800 \<le> u \<and> u \<le> 0xDBFF then low_surrogate_escape r' else None) of
                            Some l \<Rightarrow>
                              prepend (utf8 (0x10000 + (u - 0xD800) * 1024 + (l - 0xDC00)))
                                (parse_chars (drop 6 r'))
                          | None \<Rightarrow> prepend (utf8 u) (parse_chars r')))
                | _ \<Rightarrow> None)
             else
               (case unescape e of
                  None \<Rightarrow> None
                | Some x \<Rightarrow> prepend [x] (parse_chars r)))
      else if (of_char c :: nat) < 0x20 then None
      else prepend [c] (parse_chars cs))"
  by pat_completeness auto
termination
  by (relation "measure length") auto

text \<open>
  Number literals: \<^verbatim>\<open>-? (0 | [1-9][0-9]*) (. [0-9]+)? ([eE] [+-]? [0-9]+)?\<close>.
\<close>

definition digits_val :: "string \<Rightarrow> nat" where
  "digits_val ds = foldl (\<lambda>n c. 10 * n + digit_val c) 0 ds"

definition frac_part :: "string \<Rightarrow> (string \<times> string) option" where
  "frac_part s =
     (case s of
        c # r \<Rightarrow>
          if c = CHR ''.'' then
            (if takeWhile is_digit r = [] then None
             else Some (takeWhile is_digit r, dropWhile is_digit r))
          else Some ([], s)
      | [] \<Rightarrow> Some ([], s))"

definition exp_digits :: "bool \<Rightarrow> string \<Rightarrow> (int \<times> string) option" where
  "exp_digits neg s =
     (if takeWhile is_digit s = [] then None
      else Some ((if neg then - int (digits_val (takeWhile is_digit s))
                  else int (digits_val (takeWhile is_digit s))),
                 dropWhile is_digit s))"

definition exp_part :: "string \<Rightarrow> (int \<times> string) option" where
  "exp_part s =
     (case s of
        c # r \<Rightarrow>
          if c = CHR ''e'' \<or> c = CHR ''E'' then
            (case r of
               sg # r' \<Rightarrow>
                 if sg = CHR ''-'' then exp_digits True r'
                 else if sg = CHR ''+'' then exp_digits False r'
                 else exp_digits False r
             | [] \<Rightarrow> None)
          else Some (0, s)
      | [] \<Rightarrow> Some (0, s))"

definition parse_unsigned :: "string \<Rightarrow> (rat \<times> string) option" where
  "parse_unsigned s =
     (let ds = takeWhile is_digit s in
      if ds = [] \<or> (1 < length ds \<and> hd ds = CHR ''0'') then None
      else
        (case frac_part (dropWhile is_digit s) of
           None \<Rightarrow> None
         | Some (fs, s') \<Rightarrow>
             (case exp_part s' of
                None \<Rightarrow> None
              | Some (e, s'') \<Rightarrow>
                  Some ((of_nat (digits_val ds) + of_nat (digits_val fs) / 10 ^ length fs)
                          * 10 powi e, s''))))"

definition parse_number :: "string \<Rightarrow> (rat \<times> string) option" where
  "parse_number s =
     (case s of
        c # r \<Rightarrow>
          if c = CHR ''-'' then
            (case parse_unsigned r of None \<Rightarrow> None | Some (v, s') \<Rightarrow> Some (- v, s'))
          else parse_unsigned s
      | [] \<Rightarrow> None)"

text \<open>
  Values. The three parsers call each other on ever shorter text; the tests
  \<open>length r < length s\<close> on the text left by a sub-parser never fail (a parsed value
  consumes at least one character, lemma \<open>parser_lengths\<close> below) and only make the
  recursion visibly well-founded.
\<close>

lemma prepend_rest: "prepend x p = Some (y, r) \<Longrightarrow> \<exists>y'. p = Some (y', r)"
  by (auto simp: prepend_def split: option.splits)

lemma parse_chars_length: "parse_chars s = Some (x, r) \<Longrightarrow> length r < length s"
  apply (induction s arbitrary: x r rule: parse_chars.induct)
   apply simp
  apply (simp split: if_splits list.splits option.splits)
  apply (auto dest!: prepend_rest)
       apply fastforce+
  done

lemma length_skip_ws: "length (skip_ws s) \<le> length s"
  by (simp add: skip_ws_def length_dropWhile_le)

lemma skip_ws_Cons: "skip_ws s = c # r \<Longrightarrow> length r < length s"
  using length_skip_ws[of s] by simp

lemma skip_ws_bound1: "length s < n \<Longrightarrow> length (skip_ws s) < n"
  using length_skip_ws[of s] by simp

lemma skip_ws_bound2: "2 * length s < n \<Longrightarrow> 2 * length (skip_ws s) < n"
  using length_skip_ws[of s] by simp

lemma skip_ws_lt: "length r < length (skip_ws s) \<Longrightarrow> length r < length s"
  using length_skip_ws[of s] by simp

function parse_value :: "string \<Rightarrow> (json \<times> string) option"
  and parse_elements :: "string \<Rightarrow> (json list \<times> string) option"
  and parse_members :: "string \<Rightarrow> ((string \<times> json) list \<times> string) option"
where
  "parse_value s =
     (case s of
        [] \<Rightarrow> None
      | c # r \<Rightarrow>
          if c = CHR ''{'' then
            (case skip_ws r of
               [] \<Rightarrow> None
             | d # r' \<Rightarrow>
                 if d = CHR ''}'' then Some (JObj [], r')
                 else (case parse_members (d # r') of
                         None \<Rightarrow> None
                       | Some (kvs, r'') \<Rightarrow> Some (JObj kvs, r'')))
          else if c = CHR ''['' then
            (case skip_ws r of
               [] \<Rightarrow> None
             | d # r' \<Rightarrow>
                 if d = CHR '']'' then Some (JArr [], r')
                 else (case parse_elements (d # r') of
                         None \<Rightarrow> None
                       | Some (vs, r'') \<Rightarrow> Some (JArr vs, r'')))
          else if c = CHR 0x22 then
            (case parse_chars r of None \<Rightarrow> None | Some (x, r') \<Rightarrow> Some (JStr x, r'))
          else if c = CHR ''-'' \<or> is_digit c then
            (case parse_number s of None \<Rightarrow> None | Some (n, r') \<Rightarrow> Some (JNum n, r'))
          else if take 4 s = ''true'' then Some (JBool True, drop 4 s)
          else if take 5 s = ''false'' then Some (JBool False, drop 5 s)
          else if take 4 s = ''null'' then Some (JNull, drop 4 s)
          else None)"
| "parse_elements s =
     (case parse_value s of
        None \<Rightarrow> None
      | Some (v, r) \<Rightarrow>
          if length r < length s then
            (case skip_ws r of
               [] \<Rightarrow> None
             | c # r' \<Rightarrow>
                 if c = CHR '','' then
                   (case parse_elements (skip_ws r') of
                      None \<Rightarrow> None
                    | Some (vs, r'') \<Rightarrow> Some (v # vs, r''))
                 else if c = CHR '']'' then Some ([v], r')
                 else None)
          else None)"
| "parse_members s =
     (case s of
        [] \<Rightarrow> None
      | q # r \<Rightarrow>
          if q \<noteq> CHR 0x22 then None
          else
            (case parse_chars r of
               None \<Rightarrow> None
             | Some (k, r1) \<Rightarrow>
                 (case skip_ws r1 of
                    [] \<Rightarrow> None
                  | c # r2 \<Rightarrow>
                      if c \<noteq> CHR '':'' then None
                      else
                        (case parse_value (skip_ws r2) of
                           None \<Rightarrow> None
                         | Some (v, r3) \<Rightarrow>
                             if length r3 < length (skip_ws r2) then
                               (case skip_ws r3 of
                                  [] \<Rightarrow> None
                                | c' # r4 \<Rightarrow>
                                    if c' = CHR '','' then
                                      (case parse_members (skip_ws r4) of
                                         None \<Rightarrow> None
                                       | Some (kvs, r5) \<Rightarrow> Some ((k, v) # kvs, r5))
                                    else if c' = CHR ''}'' then Some ([(k, v)], r4)
                                    else None)
                             else None))))"
  by pat_completeness auto

termination
  apply (relation "measure (\<lambda>x. case x of Inl s \<Rightarrow> 2 * length s
                                     | Inr (Inl s) \<Rightarrow> 2 * length s + 1
                                     | Inr (Inr s) \<Rightarrow> 2 * length s + 1)")
  apply (auto dest!: parse_chars_length skip_ws_Cons skip_ws_lt
               intro!: skip_ws_bound1 skip_ws_bound2)
  done

declare parse_value.simps [simp del] parse_elements.simps [simp del] parse_members.simps [simp del]

text \<open>The remaining text after a parsed value is always shorter: the tests above never fail.\<close>

lemma frac_part_length: "frac_part s = Some (fs, r) \<Longrightarrow> length r \<le> length s"
  by (auto simp: frac_part_def split: list.splits if_splits
      intro: le_SucI length_dropWhile_le)

lemma exp_digits_length: "exp_digits neg s = Some (e, r) \<Longrightarrow> length r \<le> length s"
  by (auto simp: exp_digits_def split: if_splits intro: length_dropWhile_le)

lemma exp_part_length: "exp_part s = Some (e, r) \<Longrightarrow> length r \<le> length s"
  by (auto simp: exp_part_def split: list.splits if_splits
      dest!: exp_digits_length)

lemma dropWhile_shorter: "takeWhile P s \<noteq> [] \<Longrightarrow> length (dropWhile P s) < length s"
  by (induction s) (auto simp: less_Suc_eq_le length_dropWhile_le split: if_splits)

lemma parse_unsigned_length: "parse_unsigned s = Some (n, r) \<Longrightarrow> length r < length s"
proof -
  assume a: "parse_unsigned s = Some (n, r)"
  then have ne: "takeWhile is_digit s \<noteq> []"
    by (auto simp: parse_unsigned_def Let_def split: if_splits)
  from a obtain fs s' e where f: "frac_part (dropWhile is_digit s) = Some (fs, s')"
    and x: "exp_part s' = Some (e, r)"
    by (auto simp: parse_unsigned_def Let_def split: if_splits option.splits)
  from frac_part_length[OF f] exp_part_length[OF x] dropWhile_shorter[OF ne]
  show ?thesis by simp
qed

lemma parse_number_length: "parse_number s = Some (n, r) \<Longrightarrow> length r < length s"
  by (auto simp: parse_number_def split: list.splits if_splits option.splits
      dest!: parse_unsigned_length)

lemma parser_lengths:
  "(\<forall>v r. parse_value s = Some (v, r) \<longrightarrow> length r < length s)
   \<and> (\<forall>vs r. parse_elements s = Some (vs, r) \<longrightarrow> length r < length s)
   \<and> (\<forall>kvs r. parse_members s = Some (kvs, r) \<longrightarrow> length r < length s)"
proof (induction s rule: length_induct)
  case (1 s)
  then have ihE: "\<And>t vs r. length t < length s \<Longrightarrow> parse_elements t = Some (vs, r) \<Longrightarrow> length r < length t"
    and ihM: "\<And>t kvs r. length t < length s \<Longrightarrow> parse_members t = Some (kvs, r) \<Longrightarrow> length r < length t"
    and ihV: "\<And>t v r. length t < length s \<Longrightarrow> parse_value t = Some (v, r) \<Longrightarrow> length r < length t"
    by blast+
  have P: "length r < length s" if a: "parse_value s = Some (v, r)" for v r
  proof (cases s)
    case Nil
    with a show ?thesis by (subst (asm) parse_value.simps) simp
  next
    case (Cons c t)
    consider (obj) "c = CHR ''{''" | (arr) "c \<noteq> CHR ''{''" "c = CHR ''[''"
      | (str) "c \<noteq> CHR ''{''" "c \<noteq> CHR ''[''" "c = CHR 0x22"
      | (num) "c \<noteq> CHR ''{''" "c \<noteq> CHR ''[''" "c \<noteq> CHR 0x22" "c = CHR ''-'' \<or> is_digit c"
      | (kw) "c \<noteq> CHR ''{''" "c \<noteq> CHR ''[''" "c \<noteq> CHR 0x22" "\<not> (c = CHR ''-'' \<or> is_digit c)"
      by blast
    then show ?thesis
    proof cases
      case obj
      from a obtain d r' where sk: "skip_ws t = d # r'"
        by (subst (asm) parse_value.simps) (auto simp: Cons obj split: list.splits)
      then have l: "length (d # r') < length s"
        using length_skip_ws[of t] Cons by simp
      show ?thesis
      proof (cases "d = CHR ''}''")
        case True
        with a sk have "r = r'"
          by (subst (asm) parse_value.simps) (simp add: Cons obj)
        with l show ?thesis by simp
      next
        case False
        with a sk obtain kvs where "parse_members (d # r') = Some (kvs, r)"
          by (subst (asm) parse_value.simps) (auto simp: Cons obj split: option.splits)
        from ihM[OF l this] l show ?thesis by simp
      qed
    next
      case arr
      from a obtain d r' where sk: "skip_ws t = d # r'"
        by (subst (asm) parse_value.simps) (auto simp: Cons arr split: list.splits)
      then have l: "length (d # r') < length s"
        using length_skip_ws[of t] Cons by simp
      show ?thesis
      proof (cases "d = CHR '']''")
        case True
        with a sk have "r = r'"
          by (subst (asm) parse_value.simps) (simp add: Cons arr)
        with l show ?thesis by simp
      next
        case False
        with a sk obtain vs where "parse_elements (d # r') = Some (vs, r)"
          by (subst (asm) parse_value.simps) (auto simp: Cons arr split: option.splits)
        from ihE[OF l this] l show ?thesis by simp
      qed
    next
      case str
      with a obtain x where "parse_chars t = Some (x, r)"
        by (subst (asm) parse_value.simps) (auto simp: Cons split: option.splits)
      from parse_chars_length[OF this] Cons show ?thesis by simp
    next
      case num
      with a obtain n where "parse_number s = Some (n, r)"
        by (subst (asm) parse_value.simps) (auto simp: Cons split: option.splits)
      from parse_number_length[OF this] show ?thesis .
    next
      case kw
      with a have "(r = drop 4 s \<or> r = drop 5 s)"
        by (subst (asm) parse_value.simps) (auto simp: Cons split: if_splits)
      with Cons show ?thesis by auto
    qed
  qed
  have Q: "length r < length s" if a: "parse_elements s = Some (vs, r)" for vs r
  proof -
    from a obtain v r1 where v: "parse_value s = Some (v, r1)"
      by (subst (asm) parse_elements.simps) (auto split: option.splits)
    from P[OF v] have l1: "length r1 < length s" .
    from a v l1 obtain c r2 where sk: "skip_ws r1 = c # r2"
      by (subst (asm) parse_elements.simps) (auto split: list.splits)
    then have l2: "length r2 < length s"
      using length_skip_ws[of r1] l1 by simp
    show ?thesis
    proof (cases "c = CHR '',''")
      case True
      with a v l1 sk obtain vs' where e: "parse_elements (skip_ws r2) = Some (vs', r)"
        by (subst (asm) parse_elements.simps) (auto split: option.splits)
      have "length (skip_ws r2) < length s"
        using length_skip_ws[of r2] l2 by simp
      from ihE[OF this e] this show ?thesis by simp
    next
      case False
      with a v l1 sk have "r = r2"
        by (subst (asm) parse_elements.simps) (auto split: if_splits)
      with l2 show ?thesis by simp
    qed
  qed
  have R: "length r < length s" if a: "parse_members s = Some (kvs, r)" for kvs r
  proof -
    from a obtain t where s: "s = CHR 0x22 # t"
      by (subst (asm) parse_members.simps) (auto split: list.splits if_splits)
    from a s obtain k r1 where k: "parse_chars t = Some (k, r1)"
      by (subst (asm) parse_members.simps) (auto split: option.splits)
    from parse_chars_length[OF k] s have l1: "length r1 < length s" by simp
    from a s k obtain r2 where sk: "skip_ws r1 = CHR '':'' # r2"
      by (subst (asm) parse_members.simps) (auto split: list.splits if_splits)
    then have l2: "length (skip_ws r2) < length s"
      using length_skip_ws[of r1] length_skip_ws[of r2] l1 by simp
    from a s k sk obtain v r3 where v: "parse_value (skip_ws r2) = Some (v, r3)"
      by (subst (asm) parse_members.simps) (auto split: option.splits)
    from ihV[OF l2 v] have l3: "length r3 < length (skip_ws r2)" .
    from a s k sk v l3 obtain c r4 where sk4: "skip_ws r3 = c # r4"
      by (subst (asm) parse_members.simps) (auto split: list.splits)
    then have l4: "length r4 < length s"
      using length_skip_ws[of r3] l3 l2 by simp
    show ?thesis
    proof (cases "c = CHR '',''")
      case True
      with a s k sk v l3 sk4 obtain kvs' where m: "parse_members (skip_ws r4) = Some (kvs', r)"
        by (subst (asm) parse_members.simps) (auto split: option.splits)
      have "length (skip_ws r4) < length s"
        using length_skip_ws[of r4] l4 by simp
      from ihM[OF this m] this show ?thesis by simp
    next
      case False
      with a s k sk v l3 sk4 have "r = r4"
        by (subst (asm) parse_members.simps) (auto split: if_splits)
      with l4 show ?thesis by simp
    qed
  qed
  from P Q R show ?case by blast
qed

definition JSON_parse :: "string \<Rightarrow> json option" where
  "JSON_parse s =
     (case parse_value (skip_ws s) of
        None \<Rightarrow> None
      | Some (v, r) \<Rightarrow> if skip_ws r = [] then Some v else None)"

subsection \<open>Numbers and strings as text\<close>

function show_nat :: "nat \<Rightarrow> string" where
  "show_nat n = (if n < 10 then [digit_char n] else show_nat (n div 10) @ [digit_char (n mod 10)])"
  by pat_completeness auto
termination
  by (relation "measure id") auto

declare show_nat.simps [simp del]

definition show_int :: "int \<Rightarrow> string" where
  "show_int i = (if i < 0 then CHR ''-'' # show_nat (nat (- i)) else show_nat (nat i))"

text \<open>
  \<^verbatim>\<open>Number::toString\<close>. An integer of magnitude up to \<open>2^53\<close> is written in decimal
  digits. The shortest-round-trip rendering of any other double is not modelled: it is the
  parameter \<open>fmt\<close>.
\<close>

definition Number_toString :: "(rat \<Rightarrow> string) \<Rightarrow> rat \<Rightarrow> string" where
  "Number_toString fmt r =
     (if of_int \<lfloor>r\<rfloor> = r \<and> \<bar>r\<bar> \<le> 2 ^ 53 then show_int \<lfloor>r\<rfloor> else fmt r)"

fun join_with :: "string \<Rightarrow> string list \<Rightarrow> string" where
  "join_with sep [] = []"
| "join_with sep [x] = x"
| "join_with sep (x # y # ys) = x @ sep @ join_with sep (y # ys)"

subsection \<open>\<^verbatim>\<open>JSON.stringify\<close>\<close>

text \<open>
  \<^verbatim>\<open>QuoteJSONString\<close>: the quote, the backslash and the control characters are escaped,
  every other character is copied.
\<close>

definition escape_char :: "char \<Rightarrow> string" where
  "escape_char c =
     (if c = CHR 0x22 then [CHR 0x5C, CHR 0x22]
      else if c = CHR 0x5C then [CHR 0x5C, CHR 0x5C]
      else if c = CHR 0x08 then [CHR 0x5C, CHR ''b'']
      else if c = CHR 0x0C then [CHR 0x5C, CHR ''f'']
      else if c = CHR 0x0A then [CHR 0x5C, CHR ''n'']
      else if c = CHR 0x0D then [CHR 0x5C, CHR ''r'']
      else if c = CHR 0x09 then [CHR 0x5C, CHR ''t'']
      else if (of_char c :: nat) < 0x20 then
        [CHR 0x5C, CHR ''u'', CHR ''0'', CHR ''0'',
         hex_char ((of_char c :: nat) div 16), hex_char ((of_char c :: nat) mod 16)]
      else [c])"

definition JSON_quote :: "string \<Rightarrow> string" where
  "JSON_quote s = CHR 0x22 # concat (map escape_char s) @ [CHR 0x22]"

text \<open>
  The program applies \<^verbatim>\<open>JSON.stringify\<close> to the message it has just built and to nothing
  else. Properties are written in the order of the object (a JavaScript object would put
  integer-like names first; a message has none).
\<close>

primrec JSON_stringify :: "(rat \<Rightarrow> string) \<Rightarrow> json \<Rightarrow> string" where
  "JSON_stringify fmt JNull = ''null''"
| "JSON_stringify fmt (JBool b) = (if b then ''true'' else ''false'')"
| "JSON_stringify fmt (JNum r) = Number_toString fmt r"
| "JSON_stringify fmt (JStr s) = JSON_quote s"
| "JSON_stringify fmt (JArr vs) = ''['' @ join_with '','' (map (JSON_stringify fmt) vs) @ '']''"
| "JSON_stringify fmt (JObj kvs) =
     ''{'' @ join_with '',''
              (map (\<lambda>kv. JSON_quote (fst kv) @ '':'' @ snd kv)
                 (map (map_prod id (JSON_stringify fmt)) kvs)) @ ''}''"

subsection \<open>\<^verbatim>\<open>TextEncoder\<close> and \<^verbatim>\<open>TextDecoder\<close>\<close>

text \<open>
  With text represented by its UTF-8 bytes, encoding is the identity. Decoding
  (\<^verbatim>\<open>new TextDecoder('utf-8')\<close>, not fatal, BOM not ignored) drops a leading byte order
  mark; its replacement of ill-formed byte sequences by U+FFFD is not modelled (it changes
  bytes from \<open>0x80\<close> on only, which the JSON grammar treats alike).
\<close>

definition TextEncoder_encode :: "string \<Rightarrow> string" where
  "TextEncoder_encode s = s"

definition TextDecoder_decode :: "string \<Rightarrow> string" where
  "TextDecoder_decode bs =
     (if take 3 bs = [CHR 0xEF, CHR 0xBB, CHR 0xBF] then drop 3 bs else bs)"

subsection \<open>\<^verbatim>\<open>String.prototype.trim\<close>\<close>

text \<open>
  The white space and line terminator characters of ECMAScript, as UTF-8 byte sequences:
  U+0009, U+000A, U+000B, U+000C, U+000D, U+0020, U+00A0, U+1680, U+2000 to U+200A, U+2028,
  U+2029, U+202F, U+205F, U+3000 and U+FEFF.
\<close>

definition js_whitespace :: "string list" where
  "js_whitespace =
     [[CHR 0x09], [CHR 0x0A], [CHR 0x0B], [CHR 0x0C], [CHR 0x0D], [CHR 0x20],
      [CHR 0xC2, CHR 0xA0], [CHR 0xE1, CHR 0x9A, CHR 0x80],
      [CHR 0xE2, CHR 0x80, CHR 0x80], [CHR 0xE2, CHR 0x80, CHR 0x81],
      [CHR 0xE2, CHR 0x80, CHR 0x82], [CHR 0xE2, CHR 0x80, CHR 0x83],
      [CHR 0xE2, CHR 0x80, CHR 0x84], [CHR 0xE2, CHR 0x80, CHR 0x85],
      [CHR 0xE2, CHR 0x80, CHR 0x86], [CHR 0xE2, CHR 0x80, CHR 0x87],
      [CHR 0xE2, CHR 0x80, CHR 0x88], [CHR 0xE2, CHR 0x80, CHR 0x89],
      [CHR 0xE2, CHR 0x80, CHR 0x8A], [CHR 0xE2, CHR 0x80, CHR 0xA8],
      [CHR 0xE2, CHR 0x80, CHR 0xA9], [CHR 0xE2, CHR 0x80, CHR 0xAF],
      [CHR 0xE2, CHR 0x81, CHR 0x9F], [CHR 0xE3, CHR 0x80, CHR 0x80],
      [CHR 0xEF, CHR 0xBB, CHR 0xBF]]"

text \<open>The number of bytes of the white space character that \<open>s\<close> starts with, \<open>0\<close> if none.\<close>

definition ws_prefix_length :: "string list \<Rightarrow> string \<Rightarrow> nat" where
  "ws_prefix_length ws s =
     (case filter (\<lambda>w. take (length w) s = w) ws of [] \<Rightarrow> 0 | w # _ \<Rightarrow> length w)"

function trim_start_with :: "string list \<Rightarrow> string \<Rightarrow> string" where
  "trim_start_with ws s =
     (if ws_prefix_length ws s = 0 then s
      else trim_start_with ws (drop (ws_prefix_length ws s) s))"
  by pat_completeness auto
termination
proof (relation "measure (\<lambda>(ws, s). length s)")
  fix ws :: "string list" and s :: string
  assume "ws_prefix_length ws s \<noteq> 0"
  then obtain w r where f: "filter (\<lambda>w. take (length w) s = w) ws = w # r" and w: "w \<noteq> []"
    by (auto simp: ws_prefix_length_def split: list.splits)
  from f have "w \<in> set (filter (\<lambda>w. take (length w) s = w) ws)"
    by simp
  then have "take (length w) s = w"
    by simp
  with w have "s \<noteq> []"
    by auto
  with f w show "((ws, drop (ws_prefix_length ws s) s), (ws, s)) \<in> measure (\<lambda>(ws, s). length s)"
    by (simp add: ws_prefix_length_def)
qed simp

declare trim_start_with.simps [simp del]

definition String_trim :: "string \<Rightarrow> string" where
  "String_trim s =
     rev (trim_start_with (map rev js_whitespace) (rev (trim_start_with js_whitespace s)))"

section \<open>The application\<close>

text \<open>
  Each handler of \<^verbatim>\<open>src/app.js\<close> is a function from the state before to the state after,
  with the answers of the browser (the chosen device, the outcome of a write, the clock, the
  storage engine accepting a write) as further arguments. A handler runs as one step: the
  interleaving of two handlers at an \<^verbatim>\<open>await\<close>, and of a handler with the events of an
  IndexedDB request, is not modelled. Theme switching, service worker registration and
  \<^verbatim>\<open>startGattServer\<close> (which only alerts or logs) touch none of the state below and are
  left out.
\<close>

subsection \<open>State\<close>

text \<open>
  The global state of \<^verbatim>\<open>src/app.js\<close> and the parts of the browser it acts on.

  \<^item> \<open>db_open\<close>: the variable \<^verbatim>\<open>db\<close> has been assigned by \<^verbatim>\<open>initDB\<close>.
  \<^item> \<open>userProfile\<close>: \<^verbatim>\<open>userProfile.username\<close>, \<open>None\<close> while \<^verbatim>\<open>userProfile\<close> is \<^verbatim>\<open>{}\<close>.
  \<^item> \<open>connectedPeers\<close>: the \<^verbatim>\<open>Map\<close> of that name, in insertion order.
  \<^item> \<open>messages_store\<close>, \<open>key_generator\<close>: the records (primary key, value) of the object store
    \<^verbatim>\<open>messages\<close> (key path \<^verbatim>\<open>id\<close>, \<^verbatim>\<open>autoIncrement\<close>) and its key generator.
  \<^item> \<open>profile_puts\<close>: the usernames written by \<^verbatim>\<open>store.put\<close> to the object store \<^verbatim>\<open>profile\<close>.
  \<^item> \<open>messageFeed\<close>: the children of the element \<^verbatim>\<open>message-feed\<close>.
  \<^item> \<open>radio\<close>: the calls made to the Web Bluetooth link of each device.
\<close>

datatype console_entry = Log string | Error string

datatype js_error = TypeError | DataError

datatype radio_event =
    GattConnect string
  | StartNotifications string
  | WriteValue string string

record peer =
  device_id :: string
  device_name :: "string option"

record bubble =
  className :: string
  innerHTML :: string

datatype idbkey = KNum rat | KStr string | KArr "idbkey list"

record app_state =
  db_open :: bool
  userProfile :: "string option"
  connectedPeers :: "(string \<times> peer) list"
  messages_store :: "(idbkey \<times> json) list"
  key_generator :: nat
  profile_puts :: "string list"
  usernameDisplay :: string
  messageFeed :: "bubble list"
  messageInput :: string
  peerList :: "string list"
  console :: "console_entry list"
  radio :: "radio_event list"

definition console_log :: "string \<Rightarrow> app_state \<Rightarrow> app_state" where
  "console_log s st = st\<lparr>console := console st @ [Log s]\<rparr>"

definition console_error :: "string \<Rightarrow> app_state \<Rightarrow> app_state" where
  "console_error s st = st\<lparr>console := console st @ [Error s]\<rparr>"

definition radio_call :: "radio_event \<Rightarrow> app_state \<Rightarrow> app_state" where
  "radio_call e st = st\<lparr>radio := radio st @ [e]\<rparr>"

subsection \<open>The object store \<^verbatim>\<open>messages\<close>\<close>

text \<open>
  Keys of IndexedDB that a JSON value can convert to: numbers, strings, and arrays of keys.
  Any other value (\<^verbatim>\<open>null\<close>, a boolean, an object) is not a valid key.
\<close>

fun to_key :: "json \<Rightarrow> idbkey option" where
  "to_key (JNum r) = Some (KNum r)"
| "to_key (JStr s) = Some (KStr s)"
| "to_key (JArr vs) = map_option KArr (those (map to_key vs))"
| "to_key _ = None"



text \<open>
  \<^verbatim>\<open>store.add(value)\<close> has three outcomes: an exception at the call, an \<^verbatim>\<open>error\<close> event on
  the request (\<^verbatim>\<open>request.onerror\<close>), or a \<^verbatim>\<open>success\<close> event (\<^verbatim>\<open>request.onsuccess\<close>).
\<close>

datatype 'a request = Threw js_error | Failed | Succeeded 'a

text \<open>
  The stored value is a clone of the argument; a generated key is written to the property
  \<^verbatim>\<open>id\<close> of the clone, never to the argument itself. (On an array the property \<^verbatim>\<open>id\<close> is not
  part of \<^typ>\<open>json\<close>; nothing in the program reads it.)
\<close>

definition inject_id :: "nat \<Rightarrow> json \<Rightarrow> json" where
  "inject_id n v =
     (case v of JObj kvs \<Rightarrow> JObj (kvs @ [(''id'', JNum (of_nat n))]) | _ \<Rightarrow> v)"

definition update_generator :: "idbkey \<Rightarrow> nat \<Rightarrow> nat" where
  "update_generator k g =
     (case k of
        KNum r \<Rightarrow> if of_nat g \<le> \<lfloor>min r (2 ^ 53)\<rfloor> then nat \<lfloor>min r (2 ^ 53)\<rfloor> + 1 else g
      | _ \<Rightarrow> g)"

text \<open>
  \<open>store_add io_ok v st\<close>, for the store \<^verbatim>\<open>messages\<close> with key path \<^verbatim>\<open>id\<close> and a key
  generator. \<open>io_ok\<close> is the storage engine accepting the write (no quota or disk error).
  \<^item> A value with a property \<^verbatim>\<open>id\<close> of its own uses it as key: an invalid key is a
    \<^verbatim>\<open>DataError\<close> exception, a key already in the store a \<^verbatim>\<open>ConstraintError\<close> event.
  \<^item> Any other object or array gets the next generated key.
  \<^item> A value that is not an object cannot hold a key: \<^verbatim>\<open>DataError\<close>.
  The handlers of the program do not call \<^verbatim>\<open>preventDefault\<close>, so an error event aborts the
  transaction and leaves the store and the generator as they were.
\<close>

definition store_generated :: "bool \<Rightarrow> json \<Rightarrow> app_state \<Rightarrow> app_state request" where
  "store_generated io_ok v st =
     (if \<not> io_ok \<or> 2 ^ 53 < key_generator st then Failed
      else Succeeded
        (st\<lparr>messages_store :=
               messages_store st @ [(KNum (of_nat (key_generator st)), inject_id (key_generator st) v)],
            key_generator := key_generator st + 1\<rparr>))"

definition store_add :: "bool \<Rightarrow> json \<Rightarrow> app_state \<Rightarrow> app_state request" where
  "store_add io_ok v st =
     (case v of
        JObj kvs \<Rightarrow>
          (case get_prop v ''id'' of
             None \<Rightarrow> store_generated io_ok v st
           | Some k \<Rightarrow>
               (case to_key k of
                  None \<Rightarrow> Threw DataError
                | Some key \<Rightarrow>
                    if \<not> io_ok \<or> key \<in> set (map fst (messages_store st)) then Failed
                    else Succeeded
                      (st\<lparr>messages_store := messages_store st @ [(key, v)],
                          key_generator := update_generator key (key_generator st)\<rparr>)))
      | JArr vs \<Rightarrow> store_generated io_ok v st
      | _ \<Rightarrow> Threw DataError)"







subsection \<open>Rendering\<close>

text \<open>
  \<^verbatim>\<open>ToString\<close> of a value inside a template literal; \<open>None\<close> is the \<^verbatim>\<open>TypeError\<close> raised for
  an object whose own property \<^verbatim>\<open>toString\<close> hides the inherited method (a JSON value is
  never callable).
\<close>

primrec ToString :: "(rat \<Rightarrow> string) \<Rightarrow> json \<Rightarrow> string option" where
  "ToString fmt JNull = Some ''null''"
| "ToString fmt (JBool b) = Some (if b then ''true'' else ''false'')"
| "ToString fmt (JNum r) = Some (Number_toString fmt r)"
| "ToString fmt (JStr s) = Some s"
| "ToString fmt (JArr vs) =
     map_option (join_with '','')
       (those (map2 (\<lambda>v r. if v = JNull then Some [] else r) vs (map (ToString fmt) vs)))"
| "ToString fmt (JObj kvs) =
     (if ''toString'' \<in> set (map fst kvs) then None else Some ''[object Object]'')"

definition template_value :: "(rat \<Rightarrow> string) \<Rightarrow> json option \<Rightarrow> string option" where
  "template_value fmt v = (case v of None \<Rightarrow> Some ''undefined'' | Some x \<Rightarrow> ToString fmt x)"

text \<open>\<^verbatim>\<open>message.sender === userProfile.username\<close>.\<close>

definition sender_is_user :: "json option \<Rightarrow> string option \<Rightarrow> bool" where
  "sender_is_user sender username =
     (case (sender, username) of
        (None, None) \<Rightarrow> True
      | (Some (JStr s), Some u) \<Rightarrow> s = u
      | _ \<Rightarrow> False)"

definition bubble_markup :: "string \<Rightarrow> string \<Rightarrow> string" where
  "bubble_markup sender_shown text_shown =
     [CHR 0x0A] @ ''            <div class=\"message-sender\">'' @ sender_shown @ ''</div>'' @
     [CHR 0x0A] @ ''            <div class=\"message-text\">'' @ text_shown @ ''</div>'' @
     [CHR 0x0A] @ ''        ''"

text \<open>
  \<open>renderMessage fmt message isMeOverride st\<close>; \<open>isMeOverride = None\<close> is the default
  \<^verbatim>\<open>null\<close>. If a template value raises, the bubble is never appended.
\<close>

definition renderMessage :: "(rat \<Rightarrow> string) \<Rightarrow> json \<Rightarrow> bool option \<Rightarrow> app_state \<Rightarrow> app_state" where
  "renderMessage fmt message isMeOverride st =
     (let isMe = (case isMeOverride of
                    Some b \<Rightarrow> b
                  | None \<Rightarrow> sender_is_user (get_prop message ''sender'') (userProfile st))
      in case (if isMe then Some ''You'' else template_value fmt (get_prop message ''sender''),
               template_value fmt (get_prop message ''text'')) of
           (Some s, Some t) \<Rightarrow>
             st\<lparr>messageFeed := messageFeed st @
                   [\<lparr>className = ''message-bubble '' @ (if isMe then ''me'' else ''other''),
                     innerHTML = bubble_markup s t\<rparr>]\<rparr>
         | _ \<Rightarrow> st)"

subsection \<open>Saving and loading messages\<close>

text \<open>
  \<open>saveAndRenderMessage\<close>. \<open>Inl\<close> is an exception at the call: \<^verbatim>\<open>db.transaction\<close> on an
  unassigned \<^verbatim>\<open>db\<close>, or the \<^verbatim>\<open>DataError\<close> of \<^verbatim>\<open>store.add\<close>. The events of the request arrive
  after the caller has gone on; the model applies them at once, so a final state is the same
  but the order of console lines of the caller and of the request is not kept.
\<close>

definition saveAndRenderMessage ::
  "(rat \<Rightarrow> string) \<Rightarrow> bool \<Rightarrow> json \<Rightarrow> bool \<Rightarrow> app_state \<Rightarrow> js_error + app_state" where
  "saveAndRenderMessage fmt io_ok message isMe st =
     (if \<not> db_open st then Inl TypeError
      else
        (case store_add io_ok message st of
           Threw e \<Rightarrow> Inl e
         | Failed \<Rightarrow> Inr (console_error ''Error saving message'' st)
         | Succeeded st' \<Rightarrow> Inr (renderMessage fmt message (Some isMe) st')))"


subsection \<open>Receiving\<close>

text \<open>
  \<open>handleIncomingMessage fmt io_ok val st\<close>: \<open>val\<close> is the bytes of
  \<^verbatim>\<open>event.target.value\<close>. Reading \<^verbatim>\<open>message.sender\<close> of \<^verbatim>\<open>null\<close> raises; every exception in
  the \<^verbatim>\<open>try\<close> block is caught and logged.
\<close>

definition handleIncomingMessage ::
  "(rat \<Rightarrow> string) \<Rightarrow> bool \<Rightarrow> string \<Rightarrow> app_state \<Rightarrow> app_state" where
  "handleIncomingMessage fmt io_ok val st =
     (case JSON_parse (TextDecoder_decode val) of
        None \<Rightarrow> console_error ''Failed to parse incoming message:'' st
      | Some message \<Rightarrow>
          (let st1 = console_log ''Received message:'' st in
           if message = JNull then console_error ''Failed to parse incoming message:'' st1
           else if \<not> sender_is_user (get_prop message ''sender'') (userProfile st1) then
             (case saveAndRenderMessage fmt io_ok message False st1 of
                Inl e \<Rightarrow> console_error ''Failed to parse incoming message:'' st1
              | Inr st2 \<Rightarrow> st2)
           else st1))"

subsection \<open>Peers\<close>

definition peer_label :: "string \<times> peer \<Rightarrow> string" where
  "peer_label e =
     (case device_name (snd e) of
        None \<Rightarrow> ''Device ID: '' @ take 8 (fst e) @ ''...''
      | Some n \<Rightarrow> if n = [] then ''Device ID: '' @ take 8 (fst e) @ ''...'' else n)"

definition updatePeerListUI :: "app_state \<Rightarrow> app_state" where
  "updatePeerListUI st =
     (if connectedPeers st = [] then st\<lparr>peerList := [''None'']\<rparr>
      else st\<lparr>peerList := map peer_label (connectedPeers st)\<rparr>)"

definition onDisconnected :: "string \<Rightarrow> app_state \<Rightarrow> app_state" where
  "onDisconnected deviceId st =
     updatePeerListUI
       ((console_log (''Device '' @ deviceId @ '' disconnected.'') st)
          \<lparr>connectedPeers := AList.delete deviceId (connectedPeers st)\<rparr>)"

text \<open>
  What the browser answers to one run of \<open>scanForPeers\<close>: the chooser is dismissed
  (\<^verbatim>\<open>requestDevice\<close> rejects), or a device is chosen and the connection gets as far as one of
  the four awaited calls, or through all of them.
\<close>

datatype link_progress =
    ConnectRejects
  | ServiceRejects
  | CharacteristicRejects
  | NotificationsReject
  | LinkUp

datatype scan_answer = NoDevice | Device string "string option" link_progress

definition device_label :: "string \<Rightarrow> string option \<Rightarrow> string" where
  "device_label deviceId name =
     (case name of
        None \<Rightarrow> ''ID: '' @ deviceId
      | Some n \<Rightarrow> if n = [] then ''ID: '' @ deviceId else n)"

definition scan_error :: "app_state \<Rightarrow> app_state" where
  "scan_error st = console_error ''Bluetooth Scan/Connect Error:'' st"

definition scanForPeers :: "scan_answer \<Rightarrow> app_state \<Rightarrow> app_state" where
  "scanForPeers answer st =
     (let st0 = console_log ''Scanning for nearby users...'' st in
      case answer of
        NoDevice \<Rightarrow> scan_error st0
      | Device deviceId name progress \<Rightarrow>
          (let st1 = console_log (''Found device: '' @ device_label deviceId name) st0 in
           if deviceId \<in> set (map fst (connectedPeers st1)) then
             console_log ''Already connected to this device.'' st1
           else
             (let st2 = radio_call (GattConnect deviceId) st1 in
              case progress of
                ConnectRejects \<Rightarrow> scan_error st2
              | ServiceRejects \<Rightarrow> scan_error st2
              | CharacteristicRejects \<Rightarrow> scan_error st2
              | NotificationsReject \<Rightarrow> scan_error (radio_call (StartNotifications deviceId) st2)
              | LinkUp \<Rightarrow>
                  (let st3 = radio_call (StartNotifications deviceId) st2;
                       st4 = st3\<lparr>connectedPeers :=
                                  AList.update deviceId \<lparr>device_id = deviceId, device_name = name\<rparr>
                                    (connectedPeers st3)\<rparr>;
                       st5 = console_log
                               (''Connection established with '' @
                                  (case name of None \<Rightarrow> deviceId
                                   | Some n \<Rightarrow> if n = [] then deviceId else n) @ ''.'') st4
                   in updatePeerListUI st5))))"

subsection \<open>Sending\<close>

text \<open>
  The result of an \<^verbatim>\<open>async\<close> function: its promise is fulfilled, or rejected with an
  exception, or never settled because an awaited promise never is.
\<close>

datatype 'a promise = Fulfilled 'a | Rejected js_error 'a | Pending 'a

datatype write_outcome = WriteResolves | WriteRejects | WriteNeverSettles

text \<open>
  The loop \<^verbatim>\<open>for (const peer of connectedPeers.values())\<close> of \<open>sendMessage\<close>:
  \<open>writes p\<close> is what \<^verbatim>\<open>peer.characteristic.writeValue(data)\<close> does for the device \<open>p\<close>. Each
  write is awaited before the next peer is taken. The second component is \<open>False\<close> when the
  loop is left waiting for a write.
\<close>

fun broadcast ::
  "(string \<Rightarrow> write_outcome) \<Rightarrow> string \<Rightarrow> (string \<times> peer) list \<Rightarrow> app_state \<Rightarrow> app_state \<times> bool" where
  "broadcast writes data [] st = (st, True)"
| "broadcast writes data (e # ps) st =
     (let st1 = radio_call (WriteValue (device_id (snd e)) data) st in
      case writes (device_id (snd e)) of
        WriteResolves \<Rightarrow>
          broadcast writes data ps (console_log (''Message sent to '' @ device_id (snd e)) st1)
      | WriteRejects \<Rightarrow>
          broadcast writes data ps
            (console_error (''Failed to send message to '' @ device_id (snd e) @ '':'') st1)
      | WriteNeverSettles \<Rightarrow> (st1, False))"

text \<open>
  \<open>sendMessage fmt now io_ok writes st\<close>: \<open>now\<close> is \<^verbatim>\<open>new Date().getTime()\<close>.
\<close>

definition new_message :: "string \<Rightarrow> string \<Rightarrow> int \<Rightarrow> json" where
  "new_message username txt now =
     JObj [(''sender'', JStr username), (''text'', JStr txt), (''timestamp'', JNum (of_int now))]"

definition sendMessage ::
  "(rat \<Rightarrow> string) \<Rightarrow> int \<Rightarrow> bool \<Rightarrow> (string \<Rightarrow> write_outcome) \<Rightarrow> app_state \<Rightarrow> app_state promise" where
  "sendMessage fmt now io_ok writes st =
     (let txt = String_trim (messageInput st) in
      case userProfile st of
        None \<Rightarrow> Fulfilled st
      | Some username \<Rightarrow>
          if txt = [] \<or> username = [] then Fulfilled st
          else
            (let message = new_message username txt now in
             case saveAndRenderMessage fmt io_ok message True st of
               Inl e \<Rightarrow> Rejected e st
             | Inr st1 \<Rightarrow>
                 (let st2 = st1\<lparr>messageInput := []\<rparr> in
                  if connectedPeers st2 = [] then Fulfilled st2
                  else
                    (let data = TextEncoder_encode (JSON_stringify fmt message);
                         st3 = console_log
                                 (''Broadcasting message to '' @
                                    show_nat (length (connectedPeers st2)) @ '' peer(s)'') st2
                     in case broadcast writes data (connectedPeers st3) st3 of
                          (st4, True) \<Rightarrow> Fulfilled st4
                        | (st4, False) \<Rightarrow> Pending st4))))"

subsection \<open>The profile\<close>



definition initial_state :: app_state where
  "initial_state =
     \<lparr>db_open = True, userProfile = None, connectedPeers = [], messages_store = [],
      key_generator = 1, profile_puts = [], usernameDisplay = [], messageFeed = [],
      messageInput = [], peerList = [], console = [], radio = []\<rparr>"

section \<open>Notions used by the statements\<close>

text \<open>A console line that reports a failed write to a peer.\<close>

definition is_send_failure :: "console_entry \<Rightarrow> bool" where
  "is_send_failure e =
     (case e of Error s \<Rightarrow> take 26 s = ''Failed to send message to '' | Log _ \<Rightarrow> False)"

text \<open>The console line that the loop of \<open>sendMessage\<close> writes for a peer whose write settles.\<close>

definition write_entry :: "(string \<Rightarrow> write_outcome) \<Rightarrow> string \<times> peer \<Rightarrow> console_entry" where
  "write_entry writes e =
     (if writes (device_id (snd e)) = WriteRejects
      then Error (''Failed to send message to '' @ device_id (snd e) @ '':'')
      else Log (''Message sent to '' @ device_id (snd e)))"

text \<open>Concrete inputs for the examples.\<close>

definition no_fmt :: "rat \<Rightarrow> string" where
  "no_fmt r = []"

definition demo_peer :: "string \<Rightarrow> string \<times> peer" where
  "demo_peer d = (d, \<lparr>device_id = d, device_name = None\<rparr>)"

definition demo_state :: app_state where
  "demo_state =
     initial_state\<lparr>userProfile := Some ''alice'', messageInput := ''hi'',
                    connectedPeers := [demo_peer ''A'', demo_peer ''B'']\<rparr>"

definition B_rejects :: "string \<Rightarrow> write_outcome" where
  "B_rejects d = (if d = ''B'' then WriteRejects else WriteResolves)"

definition A_never_settles :: "string \<Rightarrow> write_outcome" where
  "A_never_settles d = (if d = ''A'' then WriteNeverSettles else WriteResolves)"

definition all_resolve :: "string \<Rightarrow> write_outcome" where
  "all_resolve d = WriteResolves"

text \<open>The state in which an \<^verbatim>\<open>async\<close> function has left the program.\<close>

definition settled_state :: "'a promise \<Rightarrow> 'a" where
  "settled_state p = (case p of Fulfilled s \<Rightarrow> s | Rejected e s \<Rightarrow> s | Pending s \<Rightarrow> s)"

text \<open>
  What can happen to the running page, one event at a time: the scan button with the
  browser's answer, a \<^verbatim>\<open>gattserverdisconnected\<close> event, a notification with its payload
  (and whether the store accepts a write), typing into the input, and the send button
  with the clock, the store's answer and the behaviour of the writes.
\<close>

datatype event =
    Scan scan_answer
  | Disconnected string
  | Incoming bool string
  | Typed string
  | Send int bool "string \<Rightarrow> write_outcome"

fun step :: "(rat \<Rightarrow> string) \<Rightarrow> app_state \<Rightarrow> event \<Rightarrow> app_state" where
  "step fmt st (Scan answer) = scanForPeers answer st"
| "step fmt st (Disconnected deviceId) = onDisconnected deviceId st"
| "step fmt st (Incoming io_ok val) = handleIncomingMessage fmt io_ok val st"
| "step fmt st (Typed s) = st\<lparr>messageInput := s\<rparr>"
| "step fmt st (Send now io_ok writes) = settled_state (sendMessage fmt now io_ok writes st)"

definition run :: "(rat \<Rightarrow> string) \<Rightarrow> event list \<Rightarrow> app_state \<Rightarrow> app_state" where
  "run fmt evs st = foldl (step fmt) st evs"

text \<open>
  The devices connected after a sequence of events, as the specification counts them: a
  device is connected from the completion of its connect sequence until it disconnects.
\<close>

fun connected_after :: "string list \<Rightarrow> event \<Rightarrow> string list" where
  "connected_after ds (Scan (Device d name LinkUp)) = (if d \<in> set ds then ds else ds @ [d])"
| "connected_after ds (Disconnected d) = removeAll d ds"
| "connected_after ds _ = ds"




text \<open>\<open>occurs_in x s\<close>: the text \<open>x\<close> occurs in \<open>s\<close>.\<close>

fun occurs_in :: "string \<Rightarrow> string \<Rightarrow> bool" where
  "occurs_in x [] = (x = [])"
| "occurs_in x (c # cs) = (take (length x) (c # cs) = x \<or> occurs_in x cs)"

definition markup_payload :: json where
  "markup_payload =
     JObj [(''sender'', JStr ''<i>bob</i>''), (''text'', JStr ''<img src=x onerror=alert(1)>''),
           (''timestamp'', JNum 2000)]"

text \<open>\<open>append_fails io_ok v st\<close>: \<^verbatim>\<open>store.add(v)\<close> does not succeed in the state \<open>st\<close>.\<close>

definition append_fails :: "bool \<Rightarrow> json \<Rightarrow> app_state \<Rightarrow> bool" where
  "append_fails io_ok v st = (case store_add io_ok v st of Succeeded st' \<Rightarrow> False | _ \<Rightarrow> True)"

text \<open>
  The writes that the loop of \<open>sendMessage\<close> issues: to the peers up to and including the
  first one whose write never settles.
\<close>

definition issued_writes ::
  "(string \<Rightarrow> write_outcome) \<Rightarrow> string \<Rightarrow> (string \<times> peer) list \<Rightarrow> radio_event list" where
  "issued_writes writes data ps =
     map (\<lambda>e. WriteValue (device_id (snd e)) data)
       (take (Suc (length (takeWhile (\<lambda>e. writes (device_id (snd e)) \<noteq> WriteNeverSettles) ps))) ps)"

text \<open>Payloads and states of the examples.\<close>

definition bob_payload :: string where
  "bob_payload = ''{\"sender\":\"bob\",\"text\":\"yo\",\"timestamp\":2000}''"

definition bob_message :: json where
  "bob_message = JObj [(''sender'', JStr ''bob''), (''text'', JStr ''yo''), (''timestamp'', JNum 2000)]"


definition truncated_payload :: string where
  "truncated_payload = ''{\"sender\":\"bob\",\"text\":\"y''"

definition partial_payload :: string where
  "partial_payload = ''{\"sender\":\"bob\"}''"

definition mistyped_payload :: string where
  "mistyped_payload = ''{\"sender\":7,\"text\":true,\"timestamp\":\"soon\"}''"


definition alice_state :: app_state where
  "alice_state = initial_state\<lparr>userProfile := Some ''alice''\<rparr>"





text \<open>A character that may follow an integer literal and is not read as part of the number.\<close>

definition ends_number :: "char \<Rightarrow> bool" where
  "ends_number c \<longleftrightarrow> \<not> is_digit c \<and> c \<noteq> CHR ''.'' \<and> c \<noteq> CHR ''e'' \<and> c \<noteq> CHR ''E''"

section \<open>Properties\<close>


subsection \<open>Which parts of the state an operation leaves alone\<close>

lemma renderMessage_fields:
  "connectedPeers (renderMessage fmt m b st) = connectedPeers st"
  "radio (renderMessage fmt m b st) = radio st"
  "console (renderMessage fmt m b st) = console st"
  "messages_store (renderMessage fmt m b st) = messages_store st"
  "key_generator (renderMessage fmt m b st) = key_generator st"
  "userProfile (renderMessage fmt m b st) = userProfile st"
  "db_open (renderMessage fmt m b st) = db_open st"
  "messageInput (renderMessage fmt m b st) = messageInput st"
  "profile_puts (renderMessage fmt m b st) = profile_puts st"
  by (simp_all add: renderMessage_def Let_def split: option.splits prod.splits)

lemma store_add_fields:
  assumes "store_add io_ok v st = Succeeded st'"
  shows "connectedPeers st' = connectedPeers st" "radio st' = radio st"
    "console st' = console st" "userProfile st' = userProfile st" "db_open st' = db_open st"
    "messageInput st' = messageInput st" "messageFeed st' = messageFeed st"
    "profile_puts st' = profile_puts st"
  using assms
  by (auto simp: store_add_def store_generated_def split: json.splits option.splits if_splits)

lemma saveAndRenderMessage_fields:
  assumes "saveAndRenderMessage fmt io_ok v b st = Inr st'"
  shows "connectedPeers st' = connectedPeers st" "radio st' = radio st"
    "userProfile st' = userProfile st" "db_open st' = db_open st"
    "messageInput st' = messageInput st" "profile_puts st' = profile_puts st"
    "filter is_send_failure (console st') = filter is_send_failure (console st)"
  using assms
  by (auto simp: saveAndRenderMessage_def renderMessage_fields console_error_def is_send_failure_def
      split: if_splits request.splits dest: store_add_fields)

lemma store_add_new_message_not_Threw: "store_add io_ok (new_message u t now) st \<noteq> Threw e"
  by (simp add: store_add_def store_generated_def new_message_def)

lemma saveAndRender_new_message:
  "db_open st \<Longrightarrow> \<exists>st'. saveAndRenderMessage fmt io_ok (new_message u t now) b st = Inr st'"
  using store_add_new_message_not_Threw[of io_ok u t now st]
  by (cases "store_add io_ok (new_message u t now) st") (auto simp: saveAndRenderMessage_def)

lemma broadcast_fields:
  "connectedPeers (fst (broadcast writes data ps st)) = connectedPeers st"
  "messageFeed (fst (broadcast writes data ps st)) = messageFeed st"
  "messages_store (fst (broadcast writes data ps st)) = messages_store st"
  "key_generator (fst (broadcast writes data ps st)) = key_generator st"
  "userProfile (fst (broadcast writes data ps st)) = userProfile st"
  "db_open (fst (broadcast writes data ps st)) = db_open st"
  by (induction ps arbitrary: st;
      simp add: radio_call_def console_log_def console_error_def Let_def
           split: write_outcome.splits)+

lemma sendMessage_settled:
  assumes "userProfile st = Some u" and "u \<noteq> []" and "String_trim (messageInput st) \<noteq> []"
    and "saveAndRenderMessage fmt io_ok (new_message u (String_trim (messageInput st)) now) True st
           = Inr st1"
  shows "settled_state (sendMessage fmt now io_ok writes st) =
           (if connectedPeers st = [] then st1\<lparr>messageInput := []\<rparr>
            else fst (broadcast writes
                        (TextEncoder_encode
                           (JSON_stringify fmt (new_message u (String_trim (messageInput st)) now)))
                        (connectedPeers st)
                        (console_log (''Broadcasting message to '' @
                             show_nat (length (connectedPeers st)) @ '' peer(s)'')
                           (st1\<lparr>messageInput := []\<rparr>))))"
  using assms saveAndRenderMessage_fields(1)[OF assms(4)]
  by (auto simp: sendMessage_def settled_state_def Let_def console_log_def
      split: prod.splits bool.splits)

lemma store_generated_ok:
  "io_ok \<Longrightarrow> key_generator st \<le> 2 ^ 53 \<Longrightarrow>
   store_generated io_ok v st =
     Succeeded (st\<lparr>messages_store :=
                    messages_store st @
                      [(KNum (of_nat (key_generator st)), inject_id (key_generator st) v)],
                  key_generator := key_generator st + 1\<rparr>)"
  by (simp add: store_generated_def)

lemma store_add_new_message:
  "store_add io_ok (new_message u t now) st = store_generated io_ok (new_message u t now) st"
  by (simp add: store_add_def new_message_def)

lemma renderMessage_new_message:
  "renderMessage fmt (new_message u t now) (Some True) st =
     st\<lparr>messageFeed := messageFeed st @
          [\<lparr>className = ''message-bubble me'', innerHTML = bubble_markup ''You'' t\<rparr>]\<rparr>"
  by (simp add: renderMessage_def new_message_def template_value_def)

lemma saveAndRender_new_message_ok:
  assumes "db_open st" and "io_ok" and "key_generator st \<le> 2 ^ 53"
  shows "saveAndRenderMessage fmt io_ok (new_message u t now) True st =
      Inr (renderMessage fmt (new_message u t now) (Some True)
             (st\<lparr>messages_store :=
                   messages_store st @
                     [(KNum (of_nat (key_generator st)),
                       inject_id (key_generator st) (new_message u t now))],
                 key_generator := key_generator st + 1\<rparr>))"
  using assms by (simp add: saveAndRenderMessage_def store_add_new_message store_generated_ok)

lemma sendMessage_feed_ok:
  assumes "db_open st" and "userProfile st = Some u" and "u \<noteq> []"
    and "String_trim (messageInput st) \<noteq> []" and "io_ok" and "key_generator st \<le> 2 ^ 53"
  shows "messageFeed (settled_state (sendMessage fmt now io_ok writes st)) =
           messageFeed st @
             [\<lparr>className = ''message-bubble me'',
               innerHTML = bubble_markup ''You'' (String_trim (messageInput st))\<rparr>]"
  using sendMessage_settled[OF assms(2,3,4) saveAndRender_new_message_ok[OF assms(1,5,6)]]
  by (simp add: broadcast_fields renderMessage_new_message console_log_def)

lemma handleIncomingMessage_connectedPeers:
  "connectedPeers (handleIncomingMessage fmt io_ok val st) = connectedPeers st"
  by (auto simp: handleIncomingMessage_def console_error_def console_log_def Let_def
      split: option.splits sum.splits dest: saveAndRenderMessage_fields(1))

lemma updatePeerListUI_connectedPeers:
  "connectedPeers (updatePeerListUI st) = connectedPeers st"
  by (simp add: updatePeerListUI_def)

subsection \<open>The broadcast loop\<close>

lemma broadcast_settled:
  "\<forall>e \<in> set ps. writes (device_id (snd e)) \<noteq> WriteNeverSettles \<Longrightarrow>
   broadcast writes data ps st =
     (st\<lparr>radio := radio st @ map (\<lambda>e. WriteValue (device_id (snd e)) data) ps,
         console := console st @ map (write_entry writes) ps\<rparr>, True)"
proof (induction ps arbitrary: st)
  case Nil
  then show ?case by simp
next
  case (Cons e ps)
  then show ?case
    by (cases "writes (device_id (snd e))")
       (simp_all add: radio_call_def console_log_def console_error_def write_entry_def)
qed

lemma filter_send_failures:
  "distinct (map (\<lambda>e. device_id (snd e)) ps) \<Longrightarrow>
   \<forall>e \<in> set ps. device_id (snd e) \<noteq> k \<longrightarrow> writes (device_id (snd e)) = WriteResolves \<Longrightarrow>
   writes k = WriteRejects \<Longrightarrow>
   filter is_send_failure (map (write_entry writes) ps) =
     (if k \<in> set (map (\<lambda>e. device_id (snd e)) ps)
      then [Error (''Failed to send message to '' @ k @ '':'')] else [])"
  by (induction ps) (auto simp: write_entry_def is_send_failure_def)

lemma trim_hi: "String_trim ''hi'' = ''hi''"
  by code_simp

lemma demo_data:
  "TextEncoder_encode (JSON_stringify no_fmt (new_message ''alice'' ''hi'' 1000)) =
     ''{\"sender\":\"alice\",\"text\":\"hi\",\"timestamp\":1000}''"
  by code_simp

text \<open>
  C3. In a broadcast over the connected peers in which the write to peer \<open>k\<close> is rejected
  and the writes to the other peers succeed, \<open>sendMessage\<close> still issues the write to every
  peer (once each, in registry order), logs exactly one send failure, the one for \<open>k\<close>, and
  its promise is fulfilled: the exception of the write does not reach the caller.
\<close>

theorem sendMessage_isolates_failed_write:
  assumes "db_open st" and "userProfile st = Some u" and "u \<noteq> []"
    and "String_trim (messageInput st) \<noteq> []"
    and "distinct (map (\<lambda>e. device_id (snd e)) (connectedPeers st))"
    and "k \<in> set (map (\<lambda>e. device_id (snd e)) (connectedPeers st))"
    and "writes k = WriteRejects"
    and "\<forall>e \<in> set (connectedPeers st).
           device_id (snd e) \<noteq> k \<longrightarrow> writes (device_id (snd e)) = WriteResolves"
  shows "\<exists>st'. sendMessage fmt now io_ok writes st = Fulfilled st'
           \<and> radio st' = radio st @
                 map (\<lambda>e. WriteValue (device_id (snd e))
                            (TextEncoder_encode
                               (JSON_stringify fmt (new_message u (String_trim (messageInput st)) now))))
                     (connectedPeers st)
           \<and> filter is_send_failure (console st') =
                 filter is_send_failure (console st) @
                   [Error (''Failed to send message to '' @ k @ '':'')]"
proof -
  let ?m = "new_message u (String_trim (messageInput st)) now"
  let ?data = "TextEncoder_encode (JSON_stringify fmt ?m)"
  from assms(1) obtain st1 where s1: "saveAndRenderMessage fmt io_ok ?m True st = Inr st1"
    using saveAndRender_new_message by blast
  note f = saveAndRenderMessage_fields[OF s1]
  let ?st2 = "st1\<lparr>messageInput := []\<rparr>"
  let ?st3 = "console_log (''Broadcasting message to '' @
                 show_nat (length (connectedPeers ?st2)) @ '' peer(s)'') ?st2"
  have ne: "connectedPeers st \<noteq> []"
    using assms(6) by auto
  have settle: "\<forall>e \<in> set (connectedPeers st). writes (device_id (snd e)) \<noteq> WriteNeverSettles"
    using assms(7,8) by (metis write_outcome.distinct(3,5))
  have b: "broadcast writes ?data (connectedPeers st) ?st3 =
      (?st3\<lparr>radio := radio ?st3 @ map (\<lambda>e. WriteValue (device_id (snd e)) ?data) (connectedPeers st),
            console := console ?st3 @ map (write_entry writes) (connectedPeers st)\<rparr>, True)"
    by (rule broadcast_settled[OF settle])
  have res: "sendMessage fmt now io_ok writes st =
      Fulfilled (?st3\<lparr>radio := radio ?st3 @ map (\<lambda>e. WriteValue (device_id (snd e)) ?data) (connectedPeers st),
            console := console ?st3 @ map (write_entry writes) (connectedPeers st)\<rparr>)"
    using assms(2,3,4) s1 ne f(1) b
    by (simp add: sendMessage_def Let_def console_log_def)
  have fl: "filter is_send_failure (map (write_entry writes) (connectedPeers st)) =
      [Error (''Failed to send message to '' @ k @ '':'')]"
    using filter_send_failures[OF assms(5) assms(8) assms(7)] assms(6) by simp
  show ?thesis
    unfolding res using f(2) f(7) fl
    by (simp add: console_log_def is_send_failure_def)
qed

theorem sendMessage_isolates_failed_write_witness:
  "(case sendMessage no_fmt 1000 True B_rejects demo_state of
      Fulfilled st' \<Rightarrow>
        radio st' =
          [WriteValue ''A'' ''{\"sender\":\"alice\",\"text\":\"hi\",\"timestamp\":1000}'',
           WriteValue ''B'' ''{\"sender\":\"alice\",\"text\":\"hi\",\"timestamp\":1000}'']
        \<and> filter is_send_failure (console st') = [Error ''Failed to send message to B:'']
    | Rejected e st' \<Rightarrow> False
    | Pending st' \<Rightarrow> False)"
proof -
  have h: "db_open demo_state" "userProfile demo_state = Some ''alice''" "''alice'' \<noteq> []"
    "String_trim (messageInput demo_state) \<noteq> []"
    "distinct (map (\<lambda>e. device_id (snd e)) (connectedPeers demo_state))"
    "''B'' \<in> set (map (\<lambda>e. device_id (snd e)) (connectedPeers demo_state))"
    "B_rejects ''B'' = WriteRejects"
    "\<forall>e \<in> set (connectedPeers demo_state).
           device_id (snd e) \<noteq> ''B'' \<longrightarrow> B_rejects (device_id (snd e)) = WriteResolves"
    by (simp_all add: demo_state_def initial_state_def demo_peer_def B_rejects_def trim_hi)
  have i: "messageInput demo_state = ''hi''" "radio demo_state = []" "console demo_state = []"
    "connectedPeers demo_state = [demo_peer ''A'', demo_peer ''B'']"
    by (simp_all add: demo_state_def initial_state_def)
  from sendMessage_isolates_failed_write[OF h, of no_fmt 1000 True]
  show ?thesis
    by (auto simp: i trim_hi demo_data demo_peer_def)
qed

lemma broadcast_radio:
  "radio (fst (broadcast writes data ps st)) = radio st @ issued_writes writes data ps
   \<and> snd (broadcast writes data ps st) =
       (takeWhile (\<lambda>e. writes (device_id (snd e)) \<noteq> WriteNeverSettles) ps = ps)"
  unfolding issued_writes_def
proof (induction ps arbitrary: st)
  case Nil
  then show ?case by simp
next
  case (Cons e ps)
  show ?case
  proof (cases "writes (device_id (snd e))")
    case WriteResolves
    then show ?thesis
      using Cons.IH[of "console_log (''Message sent to '' @ device_id (snd e))
                          (radio_call (WriteValue (device_id (snd e)) data) st)"]
      by (simp add: radio_call_def console_log_def)
  next
    case WriteRejects
    then show ?thesis
      using Cons.IH[of "console_error (''Failed to send message to '' @ device_id (snd e) @ '':'')
                          (radio_call (WriteValue (device_id (snd e)) data) st)"]
      by (simp add: radio_call_def console_error_def)
  next
    case WriteNeverSettles
    then show ?thesis
      by (simp add: radio_call_def)
  qed
qed

text \<open>
  C4, as the program has it. The loop awaits each write before it takes the next peer: the
  writes issued are those to the peers up to and including the first one whose write never
  settles (to all peers when every write settles), and the loop ends only in the latter case.
  A rejected write does not stop the later ones.
\<close>

theorem broadcast_is_sequential:
  "radio (fst (broadcast writes data ps st)) = radio st @ issued_writes writes data ps
   \<and> snd (broadcast writes data ps st) =
       (takeWhile (\<lambda>e. writes (device_id (snd e)) \<noteq> WriteNeverSettles) ps = ps)"
  by (rule broadcast_radio)

text \<open>
  C4 as stated fails: with peers \<open>A\<close> and \<open>B\<close> connected and the write to \<open>A\<close> never
  settling, no write to \<open>B\<close> is ever issued.
\<close>

theorem broadcast_stalls_counterexample:
  "radio (fst (broadcast A_never_settles ''x'' [demo_peer ''A'', demo_peer ''B''] initial_state)) =
     [WriteValue ''A'' ''x'']
   \<and> snd (broadcast A_never_settles ''x'' [demo_peer ''A'', demo_peer ''B''] initial_state) = False"
  by (simp add: A_never_settles_def demo_peer_def initial_state_def radio_call_def)

subsection \<open>The registry of peers\<close>

lemma sendMessage_connectedPeers:
  "connectedPeers (settled_state (sendMessage fmt now io_ok writes st)) = connectedPeers st"
proof (cases "userProfile st")
  case None
  then show ?thesis by (simp add: sendMessage_def settled_state_def)
next
  case (Some u)
  let ?m = "new_message u (String_trim (messageInput st)) now"
  show ?thesis
  proof (cases "String_trim (messageInput st) = [] \<or> u = []")
    case True
    with Some show ?thesis by (auto simp: sendMessage_def settled_state_def)
  next
    case False
    show ?thesis
    proof (cases "saveAndRenderMessage fmt io_ok ?m True st")
      case (Inl e)
      with Some False show ?thesis by (simp add: sendMessage_def settled_state_def)
    next
      case (Inr st1)
      from False have "u \<noteq> []" "String_trim (messageInput st) \<noteq> []" by simp_all
      from sendMessage_settled[OF Some this Inr] saveAndRenderMessage_fields(1)[OF Inr]
      show ?thesis by (simp add: broadcast_fields console_log_def)
    qed
  qed
qed

lemma scanForPeers_keys:
  "map fst (connectedPeers (scanForPeers answer st)) =
     connected_after (map fst (connectedPeers st)) (Scan answer)"
proof (cases answer)
  case NoDevice
  then show ?thesis
    by (simp add: scanForPeers_def scan_error_def console_error_def console_log_def)
next
  case (Device d name progress)
  then show ?thesis
    by (cases progress)
       (auto simp: scanForPeers_def scan_error_def console_error_def console_log_def
          radio_call_def updatePeerListUI_connectedPeers Let_def AList.update_keys)
qed

lemma step_keys:
  "map fst (connectedPeers (step fmt st e)) = connected_after (map fst (connectedPeers st)) e"
proof (cases e)
  case (Scan a)
  then show ?thesis using scanForPeers_keys by simp
next
  case (Disconnected d)
  then show ?thesis
    by (simp add: onDisconnected_def updatePeerListUI_connectedPeers console_log_def
        AList.delete_keys)
next
  case (Incoming io val)
  then show ?thesis by (simp add: handleIncomingMessage_connectedPeers)
next
  case (Typed s)
  then show ?thesis by simp
next
  case (Send now io w)
  then show ?thesis by (simp add: sendMessage_connectedPeers)
qed

lemma connected_after_distinct: "distinct ds \<Longrightarrow> distinct (connected_after ds e)"
  by (induction ds e rule: connected_after.induct) (auto simp: distinct_removeAll)

lemma run_keys:
  "map fst (connectedPeers (run fmt evs st)) =
     foldl connected_after (map fst (connectedPeers st)) evs"
  unfolding run_def
  by (induction evs arbitrary: st) (simp_all add: step_keys)

lemma foldl_connected_after_distinct:
  "distinct ds \<Longrightarrow> distinct (foldl connected_after ds evs)"
  by (induction evs arbitrary: ds) (simp_all add: connected_after_distinct)

lemma scanForPeers_already_connected:
  "d \<in> set (map fst (connectedPeers st)) \<Longrightarrow>
   scanForPeers (Device d name progress) st =
     st\<lparr>console := console st @
          [Log ''Scanning for nearby users...'', Log (''Found device: '' @ device_label d name),
           Log ''Already connected to this device.'']\<rparr>"
  by (simp add: scanForPeers_def console_log_def Let_def)

text \<open>
  C6. A scan that finds a device whose id is already a key of \<open>connectedPeers\<close> changes
  nothing but the console, where it reports ``Already connected to this device.'': no call
  goes to the radio, no entry is added or replaced. After any sequence of events from the
  initial state the keys of \<open>connectedPeers\<close> are distinct, and they are exactly the
  connected devices.
\<close>

theorem registry_one_link_per_device:
  "(d \<in> set (map fst (connectedPeers st)) \<longrightarrow>
      scanForPeers (Device d name progress) st =
        st\<lparr>console := console st @
             [Log ''Scanning for nearby users...'', Log (''Found device: '' @ device_label d name),
              Log ''Already connected to this device.'']\<rparr>)
   \<and> distinct (map fst (connectedPeers (run fmt evs initial_state)))
   \<and> map fst (connectedPeers (run fmt evs initial_state)) = foldl connected_after [] evs"
  using scanForPeers_already_connected[of d st name progress]
    run_keys[of fmt evs initial_state] foldl_connected_after_distinct[of "[]" evs]
  by (simp add: initial_state_def)

theorem registry_one_link_per_device_witness:
  "scanForPeers (Device ''A'' None LinkUp) demo_state =
     demo_state\<lparr>console := console demo_state @
          [Log ''Scanning for nearby users...'', Log (''Found device: '' @ device_label ''A'' None),
           Log ''Already connected to this device.'']\<rparr>
   \<and> map fst (connectedPeers
        (run no_fmt [Scan (Device ''A'' None LinkUp), Scan (Device ''A'' None LinkUp),
                     Scan (Device ''B'' None LinkUp), Disconnected ''A'',
                     Scan (Device ''B'' None ServiceRejects)] initial_state)) = [''B'']"
proof -
  have "''A'' \<in> set (map fst (connectedPeers demo_state))"
    by (simp add: demo_state_def demo_peer_def)
  with registry_one_link_per_device[of "''A''" demo_state None LinkUp no_fmt
      "[Scan (Device ''A'' None LinkUp), Scan (Device ''A'' None LinkUp),
        Scan (Device ''B'' None LinkUp), Disconnected ''A'',
        Scan (Device ''B'' None ServiceRejects)]"]
  show ?thesis by simp
qed

subsection \<open>Rendering\<close>

text \<open>
  C9, as the program has it. For a message whose \<^verbatim>\<open>sender\<close> and \<^verbatim>\<open>text\<close> are strings,
  \<open>renderMessage\<close> appends one bubble whose markup is the template with the text copied
  into it character for character, nothing escaped; the sender is copied in the same way
  when the message is not shown as the user's own, and replaced by the word ``You'' when
  it is.
\<close>

theorem renderMessage_markup:
  assumes "get_prop message ''sender'' = Some (JStr s)"
    and "get_prop message ''text'' = Some (JStr t)"
  shows "messageFeed (renderMessage fmt message isMeOverride st) =
           messageFeed st @
             [\<lparr>className =
                 ''message-bubble '' @
                   (if (case isMeOverride of Some b \<Rightarrow> b | None \<Rightarrow> userProfile st = Some s)
                    then ''me'' else ''other''),
               innerHTML =
                 [CHR 0x0A] @ ''            <div class=\"message-sender\">'' @
                   (if (case isMeOverride of Some b \<Rightarrow> b | None \<Rightarrow> userProfile st = Some s)
                    then ''You'' else s) @ ''</div>'' @
                 [CHR 0x0A] @ ''            <div class=\"message-text\">'' @ t @ ''</div>'' @
                 [CHR 0x0A] @ ''        ''\<rparr>]"
  using assms
  by (cases isMeOverride; cases "userProfile st")
     (auto simp: renderMessage_def template_value_def sender_is_user_def bubble_markup_def Let_def)

theorem renderMessage_markup_witness:
  "messageFeed (renderMessage no_fmt markup_payload (Some False) initial_state) =
     [\<lparr>className = ''message-bubble other'',
       innerHTML =
         [CHR 0x0A] @ ''            <div class=\"message-sender\"><i>bob</i></div>'' @
         [CHR 0x0A] @ ''            <div class=\"message-text\"><img src=x onerror=alert(1)></div>'' @
         [CHR 0x0A] @ ''        ''\<rparr>]"
  using renderMessage_markup[of markup_payload "''<i>bob</i>''" "''<img src=x onerror=alert(1)>''"
      no_fmt "Some False" initial_state]
  by (simp add: markup_payload_def initial_state_def)

text \<open>
  C9 as stated fails for a local message: after the user \<^verbatim>\<open>alice\<close> sends \<^verbatim>\<open>hi\<close>, the
  markup of the bubble holds ``You'' in the place of the sender, and \<^verbatim>\<open>alice\<close> occurs
  nowhere in it.
\<close>

theorem local_sender_not_interpolated_counterexample:
  "messageFeed (settled_state (sendMessage no_fmt 1000 True all_resolve demo_state)) =
     [\<lparr>className = ''message-bubble me'', innerHTML = bubble_markup ''You'' ''hi''\<rparr>]
   \<and> \<not> occurs_in ''alice'' (bubble_markup ''You'' ''hi'')"
proof
  have "messageFeed (settled_state (sendMessage no_fmt 1000 True all_resolve demo_state)) =
           messageFeed demo_state @
             [\<lparr>className = ''message-bubble me'',
               innerHTML = bubble_markup ''You'' (String_trim (messageInput demo_state))\<rparr>]"
    by (rule sendMessage_feed_ok[where u = "''alice''"])
       (simp_all add: demo_state_def initial_state_def trim_hi)
  then show "messageFeed (settled_state (sendMessage no_fmt 1000 True all_resolve demo_state)) =
     [\<lparr>className = ''message-bubble me'', innerHTML = bubble_markup ''You'' ''hi''\<rparr>]"
    by (simp add: demo_state_def initial_state_def trim_hi)
  show "\<not> occurs_in ''alice'' (bubble_markup ''You'' ''hi'')"
    by code_simp
qed

subsection \<open>The username prompt\<close>







subsection \<open>Receiving and saving\<close>



lemma console_log_fields:
  "userProfile (console_log s st) = userProfile st"
  "messages_store (console_log s st) = messages_store st"
  "messageFeed (console_log s st) = messageFeed st"
  "key_generator (console_log s st) = key_generator st"
  "db_open (console_log s st) = db_open st"
  "connectedPeers (console_log s st) = connectedPeers st"
  "radio (console_log s st) = radio st"
  by (simp_all add: console_log_def)

lemma handleIncoming_parsed:
  assumes "JSON_parse (TextDecoder_decode val) = Some message" and "message \<noteq> JNull"
  shows "handleIncomingMessage fmt io_ok val st =
           (if \<not> sender_is_user (get_prop message ''sender'') (userProfile st) then
              (case saveAndRenderMessage fmt io_ok message False (console_log ''Received message:'' st) of
                 Inl e \<Rightarrow> console_error ''Failed to parse incoming message:''
                            (console_log ''Received message:'' st)
               | Inr st2 \<Rightarrow> st2)
            else console_log ''Received message:'' st)"
  using assms by (simp add: handleIncomingMessage_def Let_def console_log_fields)

lemma handleIncoming_null:
  assumes "JSON_parse (TextDecoder_decode val) = Some JNull"
  shows "handleIncomingMessage fmt io_ok val st =
           console_error ''Failed to parse incoming message:'' (console_log ''Received message:'' st)"
  using assms by (simp add: handleIncomingMessage_def Let_def)

lemma saveAndRender_fails:
  assumes "append_fails io_ok v st"
  shows "case saveAndRenderMessage fmt io_ok v b st of
           Inl e \<Rightarrow> True
         | Inr st' \<Rightarrow> st' = console_error ''Error saving message'' st"
  using assms
  by (auto simp: saveAndRenderMessage_def append_fails_def split: request.splits sum.splits)

lemma handleIncoming_append_fails:
  assumes "JSON_parse (TextDecoder_decode val) = Some message"
    and "append_fails io_ok message (console_log ''Received message:'' st)"
  shows "messages_store (handleIncomingMessage fmt io_ok val st) = messages_store st
       \<and> messageFeed (handleIncomingMessage fmt io_ok val st) = messageFeed st
       \<and> key_generator (handleIncomingMessage fmt io_ok val st) = key_generator st"
proof (cases "message = JNull")
  case True
  with assms(1) show ?thesis
    by (simp add: handleIncoming_null console_error_def console_log_def)
next
  case False
  from saveAndRender_fails[OF assms(2), of fmt False]
  show ?thesis
    unfolding handleIncoming_parsed[OF assms(1) False]
    by (auto simp: console_error_def console_log_def split: sum.splits)
qed

lemma sendMessage_append_fails:
  assumes "db_open st" and "userProfile st = Some u" and "u \<noteq> []"
    and "String_trim (messageInput st) \<noteq> []"
    and "append_fails io_ok (new_message u (String_trim (messageInput st)) now) st"
  shows "messageFeed (settled_state (sendMessage fmt now io_ok writes st)) = messageFeed st
       \<and> messages_store (settled_state (sendMessage fmt now io_ok writes st)) = messages_store st
       \<and> radio (settled_state (sendMessage fmt now io_ok writes st)) =
           radio st @
             issued_writes writes
               (TextEncoder_encode
                  (JSON_stringify fmt (new_message u (String_trim (messageInput st)) now)))
               (connectedPeers st)"
proof -
  let ?m = "new_message u (String_trim (messageInput st)) now"
  from saveAndRender_new_message[OF assms(1), of fmt io_ok u "String_trim (messageInput st)" now True]
  obtain st1 where s1: "saveAndRenderMessage fmt io_ok ?m True st = Inr st1"
    by blast
  with saveAndRender_fails[OF assms(5), of fmt True]
  have st1: "st1 = console_error ''Error saving message'' st"
    by simp
  from sendMessage_settled[OF assms(2,3,4) s1, of writes] show ?thesis
    by (simp add: st1 broadcast_fields broadcast_radio console_log_def console_error_def
        issued_writes_def)
qed



lemmas json_eval =
  JSON_parse_def TextDecoder_decode_def parse_value.simps parse_members.simps
  parse_elements.simps skip_ws_def is_json_ws_def parse_number_def parse_unsigned_def
  is_digit_def frac_part_def exp_part_def exp_digits_def prepend_def digits_val_def
  digit_val_def unescape_def

lemma parse_bob_payload: "JSON_parse (TextDecoder_decode bob_payload) = Some bob_message"
  by (simp add: bob_payload_def bob_message_def json_eval)

lemma parse_truncated_payload: "JSON_parse (TextDecoder_decode truncated_payload) = None"
  by (simp add: truncated_payload_def json_eval)

lemma parse_partial_payload:
  "JSON_parse (TextDecoder_decode partial_payload) = Some (JObj [(''sender'', JStr ''bob'')])"
  by code_simp

lemma parse_mistyped_payload:
  "JSON_parse (TextDecoder_decode mistyped_payload) =
     Some (JObj [(''sender'', JNum 7), (''text'', JBool True), (''timestamp'', JStr ''soon'')])"
  by (simp add: mistyped_payload_def json_eval)





text \<open>
  C1, as the program has it. When \<^verbatim>\<open>store.add\<close> does not succeed for a message, the message
  is not rendered and the store is unchanged, on the receive path and on the send path. On
  the send path the broadcast does not wait for the append and does not depend on it: the
  encoded message is still written to the connected peers.
\<close>

theorem failed_append_stops_render_not_broadcast:
  "(JSON_parse (TextDecoder_decode val) = Some message
      \<and> append_fails io_ok message (console_log ''Received message:'' st) \<longrightarrow>
      messages_store (handleIncomingMessage fmt io_ok val st) = messages_store st
      \<and> messageFeed (handleIncomingMessage fmt io_ok val st) = messageFeed st)
   \<and> (db_open st \<and> userProfile st = Some u \<and> u \<noteq> [] \<and> String_trim (messageInput st) \<noteq> []
      \<and> append_fails io_ok (new_message u (String_trim (messageInput st)) now) st \<longrightarrow>
      messageFeed (settled_state (sendMessage fmt now io_ok writes st)) = messageFeed st
      \<and> messages_store (settled_state (sendMessage fmt now io_ok writes st)) = messages_store st
      \<and> radio (settled_state (sendMessage fmt now io_ok writes st)) =
           radio st @
             issued_writes writes
               (TextEncoder_encode
                  (JSON_stringify fmt (new_message u (String_trim (messageInput st)) now)))
               (connectedPeers st))"
  using handleIncoming_append_fails[of val message io_ok st fmt]
    sendMessage_append_fails[of st u io_ok now fmt writes]
  by blast

lemma append_fails_no_io: "v \<noteq> JNull \<Longrightarrow> append_fails False v st"
  by (auto simp: append_fails_def store_add_def store_generated_def
      split: json.splits option.splits request.splits)

lemma demo_issued_writes:
  "issued_writes all_resolve d [demo_peer ''A'', demo_peer ''B''] =
     [WriteValue ''A'' d, WriteValue ''B'' d]"
  by (simp add: issued_writes_def all_resolve_def demo_peer_def)

lemma demo_state_fields:
  "db_open demo_state" "userProfile demo_state = Some ''alice''"
  "messageInput demo_state = ''hi''" "messageFeed demo_state = []"
  "messages_store demo_state = []" "radio demo_state = []"
  "connectedPeers demo_state = [demo_peer ''A'', demo_peer ''B'']"
  "key_generator demo_state = 1"
  by (simp_all add: demo_state_def initial_state_def)

theorem failed_append_stops_render_not_broadcast_witness:
  "messages_store (handleIncomingMessage no_fmt False bob_payload demo_state) = []
   \<and> messageFeed (handleIncomingMessage no_fmt False bob_payload demo_state) = []
   \<and> messageFeed (settled_state (sendMessage no_fmt 1000 False all_resolve demo_state)) = []
   \<and> messages_store (settled_state (sendMessage no_fmt 1000 False all_resolve demo_state)) = []
   \<and> radio (settled_state (sendMessage no_fmt 1000 False all_resolve demo_state)) =
        [WriteValue ''A'' ''{\"sender\":\"alice\",\"text\":\"hi\",\"timestamp\":1000}'',
         WriteValue ''B'' ''{\"sender\":\"alice\",\"text\":\"hi\",\"timestamp\":1000}'']"
proof -
  have a: "append_fails False bob_message (console_log ''Received message:'' demo_state)"
    by (rule append_fails_no_io) (simp add: bob_message_def)
  have b: "append_fails False (new_message ''alice'' (String_trim (messageInput demo_state)) 1000)
             demo_state"
    by (rule append_fails_no_io) (simp add: new_message_def)
  from failed_append_stops_render_not_broadcast
         [of bob_payload bob_message False demo_state no_fmt "''alice''" 1000 all_resolve]
       parse_bob_payload a b
  show ?thesis
    by (simp add: demo_state_fields trim_hi demo_data demo_issued_writes)
qed

text \<open>
  C1 as stated fails: \<^verbatim>\<open>alice\<close> sends \<^verbatim>\<open>hi\<close> while the store rejects the write. Nothing is
  stored, nothing is rendered, and the message is written to both connected peers.
\<close>

theorem broadcast_after_failed_append_counterexample:
  "messages_store (settled_state (sendMessage no_fmt 1000 False all_resolve demo_state)) = []
   \<and> messageFeed (settled_state (sendMessage no_fmt 1000 False all_resolve demo_state)) = []
   \<and> radio (settled_state (sendMessage no_fmt 1000 False all_resolve demo_state)) =
        [WriteValue ''A'' ''{\"sender\":\"alice\",\"text\":\"hi\",\"timestamp\":1000}'',
         WriteValue ''B'' ''{\"sender\":\"alice\",\"text\":\"hi\",\"timestamp\":1000}'']"
proof -
  have b: "append_fails False (new_message ''alice'' (String_trim (messageInput demo_state)) 1000)
             demo_state"
    by (rule append_fails_no_io) (simp add: new_message_def)
  from sendMessage_append_fails[of demo_state "''alice''" False 1000 no_fmt all_resolve] b
  show ?thesis
    by (simp add: demo_state_fields trim_hi demo_data demo_issued_writes)
qed

lemma handleIncoming_stores:
  assumes "JSON_parse (TextDecoder_decode val) = Some (JObj kvs)"
    and "\<not> sender_is_user (get_prop (JObj kvs) ''sender'') (userProfile st)"
    and "get_prop (JObj kvs) ''id'' = None"
    and "db_open st" and "io_ok" and "key_generator st \<le> 2 ^ 53"
  shows "handleIncomingMessage fmt io_ok val st =
           renderMessage fmt (JObj kvs) (Some False)
             ((console_log ''Received message:'' st)
                \<lparr>messages_store :=
                   messages_store st @
                     [(KNum (of_nat (key_generator st)), inject_id (key_generator st) (JObj kvs))],
                 key_generator := key_generator st + 1\<rparr>)"
proof -
  have "store_add io_ok (JObj kvs) (console_log ''Received message:'' st) =
          store_generated io_ok (JObj kvs) (console_log ''Received message:'' st)"
    using assms(3) by (simp add: store_add_def)
  then show ?thesis
    using assms(2,4,5,6)
    by (simp add: handleIncoming_parsed[OF assms(1)] saveAndRenderMessage_def
        store_generated_ok console_log_fields)
qed











subsection \<open>Replaying the history\<close>






























subsection \<open>The wire format\<close>

lemma hex_val_hex_char: "d < 16 \<Longrightarrow> hex_val (hex_char d) = Some d"
proof -
  assume "d < 16"
  then consider "d < 10" | "10 \<le> d" "d < 16" by linarith
  then show ?thesis
  proof cases
    case 1
    then have "(of_char (char_of (48 + d)) :: nat) = 48 + d"
      by (simp add: of_char_of)
    with 1 show ?thesis by (simp add: hex_val_def hex_char_def Let_def)
  next
    case 2
    then have "(of_char (char_of (87 + d)) :: nat) = 87 + d"
      by (simp add: of_char_of)
    with 2 show ?thesis by (simp add: hex_val_def hex_char_def Let_def)
  qed
qed

lemma hex_val_zero: "hex_val (CHR ''0'') = Some 0"
  by (simp add: hex_val_def)

lemma hex4_control:
  assumes "n < 32"
  shows "hex4 (CHR ''0'') (CHR ''0'') (hex_char (n div 16)) (hex_char (n mod 16)) = Some n"
proof -
  from assms have "n div 16 < 16" by simp
  then show ?thesis
    by (simp add: hex4_def hex_val_zero hex_val_hex_char)
qed

lemma utf8_ascii: "(of_char c :: nat) < 128 \<Longrightarrow> utf8 (of_char c) = [c]"
  by (simp add: utf8_def)

lemma parse_chars_escape_char:
  "parse_chars (escape_char c @ rest) = prepend [c] (parse_chars rest)"
proof -
  let ?n = "of_char c :: nat"
  consider (quote) "c = CHR 0x22" | (bs) "c = CHR 0x5C" | (b) "c = CHR 0x08" | (f) "c = CHR 0x0C"
    | (n) "c = CHR 0x0A" | (r) "c = CHR 0x0D" | (t) "c = CHR 0x09"
    | (ctl) "c \<noteq> CHR 0x22" "c \<noteq> CHR 0x5C" "c \<noteq> CHR 0x08" "c \<noteq> CHR 0x0C" "c \<noteq> CHR 0x0A"
        "c \<noteq> CHR 0x0D" "c \<noteq> CHR 0x09" "?n < 0x20"
    | (plain) "c \<noteq> CHR 0x22" "c \<noteq> CHR 0x5C" "\<not> ?n < 0x20"
    by fastforce
  then show ?thesis
  proof cases
    case ctl
    then have e: "escape_char c = [CHR 0x5C, CHR ''u'', CHR ''0'', CHR ''0'',
         hex_char (?n div 16), hex_char (?n mod 16)]"
      by (simp add: escape_char_def)
    from ctl have h: "hex4 (CHR ''0'') (CHR ''0'') (hex_char (?n div 16)) (hex_char (?n mod 16)) = Some ?n"
      using hex4_control by simp
    from ctl have u: "utf8 ?n = [c]"
      using utf8_ascii by simp
    from ctl show ?thesis
      by (simp add: e h u)
  next
    case plain
    then have "escape_char c = [c]"
      by (auto simp: escape_char_def)
    with plain show ?thesis by simp
  qed (simp_all add: escape_char_def unescape_def)
qed

lemma parse_chars_quoted:
  "parse_chars (concat (map escape_char s) @ CHR 0x22 # rest) = Some (s, rest)"
  by (induction s) (simp_all add: parse_chars_escape_char prepend_def)

lemma digit_char_props:
  assumes "d < 10"
  shows "is_digit (digit_char d)" "digit_val (digit_char d) = d"
    "(digit_char d = CHR ''0'') = (d = 0)"
proof -
  from assms have o: "(of_char (digit_char d) :: nat) = 48 + d"
    by (simp add: digit_char_def of_char_of)
  from o assms show "is_digit (digit_char d)"
    by (simp add: is_digit_def)
  from o show "digit_val (digit_char d) = d"
    by (simp add: digit_val_def)
  have "(digit_char d = CHR ''0'') = ((of_char (digit_char d) :: nat) = of_char (CHR ''0''))"
    by (simp only: of_char_eq_iff)
  with o show "(digit_char d = CHR ''0'') = (d = 0)"
    by simp
qed

lemma show_nat_digits: "\<forall>c \<in> set (show_nat n). is_digit c"
proof (induction n rule: show_nat.induct)
  case (1 n)
  show ?case
  proof (cases "n < 10")
    case True
    then show ?thesis
      by (subst show_nat.simps) (simp add: digit_char_props)
  next
    case False
    with 1 show ?thesis
      by (subst show_nat.simps) (simp add: digit_char_props)
  qed
qed

lemma show_nat_nonempty: "show_nat n \<noteq> []"
  by (subst show_nat.simps) simp

lemma digits_val_Nil: "digits_val [] = 0"
  by (simp add: digits_val_def)

lemma digits_val_snoc: "digits_val (ds @ [c]) = 10 * digits_val ds + digit_val c"
  by (simp add: digits_val_def)

lemma digits_val_show_nat: "digits_val (show_nat n) = n"
proof (induction n rule: show_nat.induct)
  case (1 n)
  show ?case
  proof (cases "n < 10")
    case True
    then show ?thesis
      by (subst show_nat.simps) (simp add: digits_val_def digit_char_props)
  next
    case False
    with 1 show ?thesis
      by (subst show_nat.simps) (simp add: digits_val_snoc digit_char_props)
  qed
qed

lemma show_nat_leading: "0 < n \<Longrightarrow> hd (show_nat n) \<noteq> CHR ''0''"
proof (induction n rule: show_nat.induct)
  case (1 n)
  show ?case
  proof (cases "n < 10")
    case True
    with 1(2) show ?thesis
      by (subst show_nat.simps) (simp add: digit_char_props)
  next
    case False
    then have "0 < n div 10" by simp
    with 1(1) False have "hd (show_nat (n div 10)) \<noteq> CHR ''0''" by simp
    with False show ?thesis
      by (subst show_nat.simps) (simp add: show_nat_nonempty)
  qed
qed

lemma show_nat_single: "n < 10 \<Longrightarrow> show_nat n = [digit_char n]"
  by (subst show_nat.simps) simp

lemma show_nat_no_leading_zero: "\<not> (1 < length (show_nat n) \<and> hd (show_nat n) = CHR ''0'')"
proof (cases "n = 0")
  case True
  then show ?thesis by (simp add: show_nat_single)
next
  case False
  then show ?thesis using show_nat_leading by simp
qed

lemma parse_unsigned_show_nat:
  assumes "ends_number c"
  shows "parse_unsigned (show_nat n @ c # r) = Some (of_nat n, c # r)"
proof -
  from assms have nd: "\<not> is_digit c" by (simp add: ends_number_def)
  have t: "takeWhile is_digit (show_nat n @ c # r) = show_nat n"
    using show_nat_digits[of n] nd by (simp add: takeWhile_append2)
  have d: "dropWhile is_digit (show_nat n @ c # r) = c # r"
    using show_nat_digits[of n] nd by (simp add: dropWhile_append2)
  from assms have f: "frac_part (c # r) = Some ([], c # r)"
    by (simp add: frac_part_def ends_number_def)
  from assms have e: "exp_part (c # r) = Some (0, c # r)"
    by (simp add: exp_part_def ends_number_def)
  show ?thesis
    using show_nat_no_leading_zero[of n]
    by (simp add: parse_unsigned_def Let_def t d f e show_nat_nonempty digits_val_show_nat
        digits_val_Nil)
qed

lemma hd_show_nat_digit: "is_digit (hd (show_nat n))"
  using show_nat_digits[of n] show_nat_nonempty[of n] by (cases "show_nat n") auto

lemma minus_not_digit: "\<not> is_digit (CHR ''-'')"
  by (simp add: is_digit_def)

lemma parse_number_show_int:
  assumes "ends_number c"
  shows "parse_number (show_int i @ c # r) = Some (of_int i, c # r)"
proof (cases "i < 0")
  case True
  then have "(- rat_of_nat (nat (- i))) = of_int i" by simp
  with True show ?thesis
    by (simp add: parse_number_def show_int_def parse_unsigned_show_nat[OF assms])
next
  case False
  obtain d ds where s: "show_nat (nat i) = d # ds"
    using show_nat_nonempty[of "nat i"] by (cases "show_nat (nat i)") auto
  with hd_show_nat_digit[of "nat i"] have "d \<noteq> CHR ''-''"
    using minus_not_digit by auto
  moreover have "parse_unsigned (d # ds @ c # r) = Some (of_nat (nat i), c # r)"
    using parse_unsigned_show_nat[OF assms, of "nat i" r] s by simp
  ultimately show ?thesis
    using False by (simp add: parse_number_def show_int_def s)
qed

lemma parse_value_show_int:
  assumes "ends_number c"
  shows "parse_value (show_int i @ c # r) = Some (JNum (of_int i), c # r)"
proof -
  obtain d ds where s: "show_int i = d # ds" and d: "d = CHR ''-'' \<or> is_digit d"
  proof (cases "i < 0")
    case True
    then show ?thesis using that by (simp add: show_int_def)
  next
    case False
    then show ?thesis
      using that hd_show_nat_digit[of "nat i"] show_nat_nonempty[of "nat i"]
      by (cases "show_nat (nat i)") (auto simp: show_int_def)
  qed
  from d have n: "d \<noteq> CHR ''{''" "d \<noteq> CHR ''[''" "d \<noteq> CHR 0x22"
    by (auto simp: is_digit_def)
  have "parse_number (d # ds @ c # r) = Some (of_int i, c # r)"
    using parse_number_show_int[OF assms, of i r] s by simp
  with n d show ?thesis
    by (subst parse_value.simps) (simp add: s)
qed

lemma skip_ws_not_ws: "\<not> is_json_ws c \<Longrightarrow> skip_ws (c # r) = c # r"
  by (simp add: skip_ws_def)

lemma JSON_quote_Cons: "JSON_quote s @ rest = CHR 0x22 # concat (map escape_char s) @ CHR 0x22 # rest"
  by (simp add: JSON_quote_def)

lemma json_punctuation_not_ws:
  "\<not> is_json_ws (CHR 0x22)" "\<not> is_json_ws (CHR '':'')" "\<not> is_json_ws (CHR '','')"
  "\<not> is_json_ws (CHR ''}'')" "\<not> is_json_ws (CHR ''{'')"
  by (simp_all add: is_json_ws_def)

lemma parse_value_quoted: "parse_value (JSON_quote s @ rest) = Some (JStr s, rest)"
  by (subst parse_value.simps) (simp add: JSON_quote_Cons parse_chars_quoted)

lemma skip_ws_quoted: "skip_ws (JSON_quote s @ rest) = JSON_quote s @ rest"
  by (simp add: JSON_quote_Cons skip_ws_not_ws json_punctuation_not_ws)

lemma JSON_quote_nonempty: "JSON_quote s \<noteq> []"
  by (simp add: JSON_quote_def)

lemma quoted_starts: "\<exists>m. JSON_quote s @ r = CHR 0x22 # m"
  by (simp add: JSON_quote_def)

lemma parse_members_string_then_more:
  assumes "\<exists>m. M = CHR 0x22 # m"
  shows "parse_members (JSON_quote k @ CHR '':'' # JSON_quote s @ CHR '','' # M) =
           (case parse_members M of
              None \<Rightarrow> None
            | Some (kvs, r) \<Rightarrow> Some ((k, JStr s) # kvs, r))"
proof -
  have m: "skip_ws M = M"
    using assms by (auto simp: skip_ws_not_ws json_punctuation_not_ws)
  have v: "parse_value (JSON_quote s @ CHR '','' # M) = Some (JStr s, CHR '','' # M)"
    by (rule parse_value_quoted)
  show ?thesis
    apply (subst parse_members.simps)
    apply (simp add: JSON_quote_Cons[of k] parse_chars_quoted skip_ws_not_ws
        json_punctuation_not_ws)
    apply (simp add: skip_ws_quoted v JSON_quote_nonempty skip_ws_not_ws
        json_punctuation_not_ws m)
    done
qed

lemma ends_number_brace: "ends_number (CHR ''}'')"
  by (simp add: ends_number_def is_digit_def)

lemma show_int_nonempty: "show_int i \<noteq> []"
  by (simp add: show_int_def show_nat_nonempty)

lemma skip_ws_show_int: "skip_ws (show_int i @ rest) = show_int i @ rest"
proof -
  obtain d ds where s: "show_int i = d # ds" and d: "d = CHR ''-'' \<or> is_digit d"
  proof (cases "i < 0")
    case True
    then show ?thesis using that by (simp add: show_int_def)
  next
    case False
    then show ?thesis
      using that hd_show_nat_digit[of "nat i"] show_nat_nonempty[of "nat i"]
      by (cases "show_nat (nat i)") (auto simp: show_int_def)
  qed
  from d have "\<not> is_json_ws d"
    by (auto simp: is_json_ws_def is_digit_def)
  then show ?thesis
    by (simp add: s skip_ws_not_ws)
qed

lemma parse_members_last_int:
  "parse_members (JSON_quote k @ CHR '':'' # show_int i @ CHR ''}'' # rest) =
     Some ([(k, JNum (of_int i))], rest)"
proof -
  have v: "parse_value (show_int i @ CHR ''}'' # rest) = Some (JNum (of_int i), CHR ''}'' # rest)"
    by (rule parse_value_show_int[OF ends_number_brace])
  show ?thesis
    apply (subst parse_members.simps)
    apply (simp add: JSON_quote_Cons[of k] parse_chars_quoted skip_ws_not_ws
        json_punctuation_not_ws)
    apply (simp add: skip_ws_show_int v show_int_nonempty skip_ws_not_ws json_punctuation_not_ws)
    done
qed

lemma stringify_new_message:
  assumes "\<bar>now\<bar> \<le> 2 ^ 53"
  shows "JSON_stringify fmt (new_message u t now) =
           ''{'' @ JSON_quote ''sender'' @ '':'' @ JSON_quote u @ '','' @
                  JSON_quote ''text'' @ '':'' @ JSON_quote t @ '','' @
                  JSON_quote ''timestamp'' @ '':'' @ show_int now @ ''}''"
proof -
  from assms have "\<bar>rat_of_int now\<bar> \<le> 2 ^ 53"
    by (metis of_int_abs of_int_le_iff of_int_numeral of_int_power)
  then have "Number_toString fmt (of_int now) = show_int now"
    by (simp add: Number_toString_def)
  then show ?thesis
    by (simp add: new_message_def)
qed

lemma parse_members_new_message:
  "parse_members
     (JSON_quote ''sender'' @ CHR '':'' # JSON_quote u @ CHR '','' #
      JSON_quote ''text'' @ CHR '':'' # JSON_quote t @ CHR '','' #
      JSON_quote ''timestamp'' @ CHR '':'' # show_int now @ CHR ''}'' # rest) =
     Some ([(''sender'', JStr u), (''text'', JStr t), (''timestamp'', JNum (of_int now))], rest)"
  by (simp only: parse_members_string_then_more[OF quoted_starts] parse_members_last_int
      option.case prod.case)

lemma parse_value_new_message:
  "parse_value
     (CHR ''{'' # JSON_quote ''sender'' @ CHR '':'' # JSON_quote u @ CHR '','' #
      JSON_quote ''text'' @ CHR '':'' # JSON_quote t @ CHR '','' #
      JSON_quote ''timestamp'' @ CHR '':'' # show_int now @ CHR ''}'' # rest) =
     Some (new_message u t now, rest)"
proof -
  let ?ms = "JSON_quote ''sender'' @ CHR '':'' # JSON_quote u @ CHR '','' #
      JSON_quote ''text'' @ CHR '':'' # JSON_quote t @ CHR '','' #
      JSON_quote ''timestamp'' @ CHR '':'' # show_int now @ CHR ''}'' # rest"
  obtain m where q: "?ms = CHR 0x22 # m"
    using quoted_starts by blast
  have p: "parse_members (CHR 0x22 # m) =
      Some ([(''sender'', JStr u), (''text'', JStr t), (''timestamp'', JNum (of_int now))], rest)"
    using parse_members_new_message[of u t now rest] q by simp
  show ?thesis
    by (subst parse_value.simps)
       (simp add: q p skip_ws_not_ws json_punctuation_not_ws new_message_def)
qed

text \<open>
  C7. A message as \<open>sendMessage\<close> builds it, with a timestamp of magnitude up to \<open>2^53\<close>
  (every time value of a \<^verbatim>\<open>Date\<close> is), is encoded as the JSON object of its three fields
  under their names, \<^verbatim>\<open>sender\<close>, \<^verbatim>\<open>text\<close> and \<^verbatim>\<open>timestamp\<close>, and nothing else; no \<^verbatim>\<open>id\<close>
  is written, since the store puts the id into its own clone. Decoding the encoded bytes
  gives back the three fields unchanged, for every sender and text.
\<close>

theorem encode_decode_round_trip:
  assumes "\<bar>now\<bar> \<le> 2 ^ 53"
  shows "JSON_parse (TextDecoder_decode (TextEncoder_encode (JSON_stringify fmt (new_message u t now))))
           = Some (JObj [(''sender'', JStr u), (''text'', JStr t), (''timestamp'', JNum (of_int now))])
       \<and> TextEncoder_encode (JSON_stringify fmt (new_message u t now)) =
           ''{'' @ JSON_quote ''sender'' @ '':'' @ JSON_quote u @ '','' @
                  JSON_quote ''text'' @ '':'' @ JSON_quote t @ '','' @
                  JSON_quote ''timestamp'' @ '':'' @ show_int now @ ''}''"
proof -
  let ?w = "''{'' @ JSON_quote ''sender'' @ '':'' @ JSON_quote u @ '','' @
                  JSON_quote ''text'' @ '':'' @ JSON_quote t @ '','' @
                  JSON_quote ''timestamp'' @ '':'' @ show_int now @ ''}''"
  have w: "TextEncoder_encode (JSON_stringify fmt (new_message u t now)) = ?w"
    by (simp add: TextEncoder_encode_def stringify_new_message[OF assms])
  have d: "TextDecoder_decode ?w = ?w"
    by (simp add: TextDecoder_decode_def JSON_quote_def)
  have s: "skip_ws ?w = ?w"
    by (simp add: skip_ws_not_ws json_punctuation_not_ws)
  have "parse_value ?w = Some (new_message u t now, [])"
    using parse_value_new_message[of u t now "[]"] by simp
  with s have "JSON_parse ?w = Some (new_message u t now)"
    by (simp add: JSON_parse_def skip_ws_def)
  with w d show ?thesis
    by (simp add: new_message_def)
qed

theorem encode_decode_round_trip_witness:
  "JSON_parse (TextDecoder_decode
       (TextEncoder_encode (JSON_stringify no_fmt (new_message ''alice'' ''hi'' 1000)))) =
     Some (JObj [(''sender'', JStr ''alice''), (''text'', JStr ''hi''), (''timestamp'', JNum 1000)])
   \<and> TextEncoder_encode (JSON_stringify no_fmt (new_message ''alice'' ''hi'' 1000)) =
     ''{\"sender\":\"alice\",\"text\":\"hi\",\"timestamp\":1000}''"
proof -
  have "\<bar>1000 :: int\<bar> \<le> 2 ^ 53"
    by simp
  from encode_decode_round_trip[OF this, of no_fmt "''alice''" "''hi''"] demo_data
  show ?thesis by simp
qed


subsection \<open>Truncated payloads\<close>

text \<open>
  A parse that succeeds on a text succeeds on every extension of the text, with the same
  value and the extension added to what it leaves unread. (A number is the exception: it
  may continue into the extension, so there the parse must have left something unread.)
\<close>

lemma dropWhile_nonempty_append:
  "dropWhile P s \<noteq> [] \<Longrightarrow> dropWhile P (s @ y) = dropWhile P s @ y"
  by (induction s) auto

lemma takeWhile_nonempty_append:
  "dropWhile P s \<noteq> [] \<Longrightarrow> takeWhile P (s @ y) = takeWhile P s"
  by (induction s) auto

lemma skip_ws_append: "skip_ws s \<noteq> [] \<Longrightarrow> skip_ws (s @ y) = skip_ws s @ y"
  by (simp add: skip_ws_def dropWhile_nonempty_append)

lemma prepend_Some: "prepend x p = Some (z, r) \<Longrightarrow> \<exists>w. p = Some (w, r) \<and> z = x @ w"
  by (auto simp: prepend_def split: option.splits)

lemma low_surrogate_escape_append:
  assumes "parse_chars r \<noteq> None"
  shows "low_surrogate_escape (r @ y) = low_surrogate_escape r"
proof (cases "\<exists>a b c d e f t. r = a # b # c # d # e # f # t")
  case True
  then show ?thesis
    by (auto simp: low_surrogate_escape_def)
next
  case False
  then have short: "low_surrogate_escape r = None"
    by (auto simp: low_surrogate_escape_def split: list.splits)
  show ?thesis
  proof (cases r)
    case Nil
    with assms show ?thesis by simp
  next
    case (Cons a t)
    show ?thesis
    proof (cases "a = CHR 0x5C")
      case nb: False
      then show ?thesis
        using short Cons by (auto simp: low_surrogate_escape_def split: list.splits)
    next
      case True
      show ?thesis
      proof (cases t)
        case Nil
        with assms Cons True show ?thesis by simp
      next
        case c2: (Cons b t2)
        show ?thesis
        proof (cases "b = CHR ''u''")
          case nu: False
          then show ?thesis
            using short Cons c2 by (auto simp: low_surrogate_escape_def split: list.splits)
        next
          case bu: True
          from False Cons c2 have "\<not> (\<exists>c d e f t'. t2 = c # d # e # f # t')"
            by auto
          with assms Cons True c2 bu show ?thesis
            by (auto split: list.splits)
        qed
      qed
    qed
  qed
qed

lemma parse_chars_append:
  "parse_chars s = Some (x, r) \<Longrightarrow> parse_chars (s @ y) = Some (x, r @ y)"
proof (induction s arbitrary: x r rule: parse_chars.induct)
  case 1
  then show ?case by simp
next
  case (2 c cs)
  show ?case
  proof (cases "c = CHR 0x22")
    case True
    with "2.prems" show ?thesis by simp
  next
    case nq: False
    show ?thesis
    proof (cases "c = CHR 0x5C")
      case False
      with nq "2.prems" have p: "prepend [c] (parse_chars cs) = Some (x, r)" and ok: "\<not> (of_char c :: nat) < 0x20"
        by (simp_all split: if_splits)
      from prepend_Some[OF p] obtain w where w: "parse_chars cs = Some (w, r)" "x = [c] @ w"
        by blast
      from "2.IH"(4)[OF nq False ok w(1)] w(2) nq False ok show ?thesis
        by (simp add: prepend_def)
    next
      case True
      with nq "2.prems" obtain e r0 where cs: "cs = e # r0"
        by (cases cs) auto
      show ?thesis
      proof (cases "e = CHR ''u''")
        case eu: False
        with nq True cs "2.prems" obtain xx where ue: "unescape e = Some xx"
          and p: "prepend [xx] (parse_chars r0) = Some (x, r)"
          by (auto split: option.splits)
        from prepend_Some[OF p] obtain w where w: "parse_chars r0 = Some (w, r)" "x = [xx] @ w"
          by blast
        from "2.IH"(3)[OF nq True cs eu ue w(1)] w(2) nq True cs eu ue show ?thesis
          by (simp add: prepend_def)
      next
        case eu: True
        with nq True cs "2.prems" obtain h1 h2 h3 h4 r' u
          where r0: "r0 = h1 # h2 # h3 # h4 # r'" and hx: "hex4 h1 h2 h3 h4 = Some u"
          by (auto split: list.splits option.splits)
        let ?lo = "if 0xD800 \<le> u \<and> u \<le> 0xDBFF then low_surrogate_escape r' else None"
        show ?thesis
        proof (cases ?lo)
          case None
          with nq True cs eu r0 hx "2.prems"
          have p: "prepend (utf8 u) (parse_chars r') = Some (x, r)"
            by (simp split: if_splits)
          from prepend_Some[OF p] obtain w where w: "parse_chars r' = Some (w, r)" "x = utf8 u @ w"
            by blast
          then have "low_surrogate_escape (r' @ y) = low_surrogate_escape r'"
            using low_surrogate_escape_append[of r' y] by simp
          with None have lo: "(if 0xD800 \<le> u \<and> u \<le> 0xDBFF then low_surrogate_escape (r' @ y) else None) = None"
            by (auto split: if_splits)
          from "2.IH"(1)[OF nq True cs eu r0 refl refl refl hx None w(1)]
          have "parse_chars (r' @ y) = Some (w, r @ y)" .
          with w(2) nq True cs eu r0 hx lo show ?thesis
            by (simp add: prepend_def)
        next
          case (Some l)
          with nq True cs eu r0 hx "2.prems"
          have p: "prepend (utf8 (0x10000 + (u - 0xD800) * 1024 + (l - 0xDC00)))
                  (parse_chars (drop 6 r')) = Some (x, r)"
            by (simp split: if_splits)
          from prepend_Some[OF p] obtain w where w: "parse_chars (drop 6 r') = Some (w, r)"
            "x = utf8 (0x10000 + (u - 0xD800) * 1024 + (l - 0xDC00)) @ w"
            by blast
          from Some have six: "\<exists>a b c d e f t. r' = a # b # c # d # e # f # t"
            by (auto simp: low_surrogate_escape_def split: if_splits list.splits)
          then have lo: "low_surrogate_escape (r' @ y) = low_surrogate_escape r'"
            by (auto simp: low_surrogate_escape_def)
          from six have d6: "drop 6 (r' @ y) = drop 6 r' @ y"
            by auto
          from "2.IH"(2)[OF nq True cs eu r0 refl refl refl hx Some w(1)]
          have "parse_chars (drop 6 r' @ y) = Some (w, r @ y)" .
          with w(2) nq True cs eu r0 hx lo Some d6 show ?thesis
            by (simp add: prepend_def split: if_splits)
        qed
      qed
    qed
  qed
qed

lemma frac_part_append:
  "frac_part s = Some (fs, r) \<Longrightarrow> r \<noteq> [] \<Longrightarrow> frac_part (s @ y) = Some (fs, r @ y)"
  by (auto simp: frac_part_def dropWhile_nonempty_append takeWhile_nonempty_append
      split: list.splits if_splits)

lemma exp_digits_append:
  "exp_digits neg s = Some (e, r) \<Longrightarrow> r \<noteq> [] \<Longrightarrow> exp_digits neg (s @ y) = Some (e, r @ y)"
  by (auto simp: exp_digits_def dropWhile_nonempty_append takeWhile_nonempty_append
      split: if_splits)

lemma exp_digits_nonempty: "exp_digits neg s = Some (e, r) \<Longrightarrow> s \<noteq> []"
  by (auto simp: exp_digits_def split: if_splits)

lemma exp_part_append:
  assumes "exp_part s = Some (e, r)" and "r \<noteq> []"
  shows "exp_part (s @ y) = Some (e, r @ y)"
proof (cases s)
  case Nil
  with assms show ?thesis by (simp add: exp_part_def)
next
  case (Cons c t)
  show ?thesis
  proof (cases "c = CHR ''e'' \<or> c = CHR ''E''")
    case False
    with assms Cons show ?thesis by (auto simp: exp_part_def)
  next
    case True
    with assms Cons obtain sg t' where t: "t = sg # t'"
      by (cases t) (auto simp: exp_part_def)
    consider (m) "sg = CHR ''-''" | (p) "sg \<noteq> CHR ''-''" "sg = CHR ''+''"
      | (d) "sg \<noteq> CHR ''-''" "sg \<noteq> CHR ''+''"
      by blast
    then show ?thesis
    proof cases
      case m
      with assms Cons True t have "exp_digits True t' = Some (e, r)"
        by (auto simp: exp_part_def)
      from exp_digits_append[OF this assms(2), of y] m Cons True t show ?thesis
        by (auto simp: exp_part_def)
    next
      case p
      with assms Cons True t have "exp_digits False t' = Some (e, r)"
        by (auto simp: exp_part_def)
      from exp_digits_append[OF this assms(2), of y] p Cons True t show ?thesis
        by (auto simp: exp_part_def)
    next
      case d
      with assms Cons True t have "exp_digits False (sg # t') = Some (e, r)"
        by (auto simp: exp_part_def)
      from exp_digits_append[OF this assms(2), of y] d Cons True t show ?thesis
        by (auto simp: exp_part_def)
    qed
  qed
qed

lemma frac_part_Nil: "frac_part [] = Some ([], [])"
  by (simp add: frac_part_def)

lemma exp_part_Nil: "exp_part [] = Some (0, [])"
  by (simp add: exp_part_def)

lemma parse_unsigned_append:
  assumes "parse_unsigned s = Some (n, r)" and "r \<noteq> []"
  shows "parse_unsigned (s @ y) = Some (n, r @ y)"
proof -
  let ?ds = "takeWhile is_digit s" and ?s2 = "dropWhile is_digit s"
  from assms(1) have ok: "\<not> (?ds = [] \<or> (1 < length ?ds \<and> hd ?ds = CHR ''0''))"
    by (auto simp: parse_unsigned_def Let_def split: if_splits)
  with assms(1) obtain fs s3 e where f: "frac_part ?s2 = Some (fs, s3)"
    and x: "exp_part s3 = Some (e, r)"
    and n: "n = (of_nat (digits_val ?ds) + of_nat (digits_val fs) / 10 ^ length fs) * 10 powi e"
    by (auto simp: parse_unsigned_def Let_def split: if_splits option.splits)
  have s3: "s3 \<noteq> []"
  proof
    assume "s3 = []"
    with x have "r = []"
      by (simp only: exp_part_Nil option.inject prod.inject)
    with assms(2) show False by simp
  qed
  have s2: "?s2 \<noteq> []"
  proof
    assume "?s2 = []"
    with f have "s3 = []"
      by (simp only: frac_part_Nil option.inject prod.inject)
    with s3 show False by simp
  qed
  have t: "takeWhile is_digit (s @ y) = ?ds"
    by (rule takeWhile_nonempty_append[OF s2])
  have d: "dropWhile is_digit (s @ y) = ?s2 @ y"
    by (rule dropWhile_nonempty_append[OF s2])
  from frac_part_append[OF f s3, of y] exp_part_append[OF x assms(2), of y] ok n
  show ?thesis
    by (simp add: parse_unsigned_def Let_def t d)
qed

lemma parse_number_append:
  assumes "parse_number s = Some (n, r)" and "r \<noteq> []"
  shows "parse_number (s @ y) = Some (n, r @ y)"
proof (cases s)
  case Nil
  with assms show ?thesis by (simp add: parse_number_def)
next
  case (Cons c t)
  show ?thesis
  proof (cases "c = CHR ''-''")
    case True
    with assms Cons obtain v where v: "parse_unsigned t = Some (v, r)" and n: "n = - v"
      by (auto simp: parse_number_def split: option.splits)
    from parse_unsigned_append[OF v assms(2), of y] n True Cons show ?thesis
      by (simp add: parse_number_def)
  next
    case False
    with assms Cons have "parse_unsigned (c # t) = Some (n, r)"
      by (simp add: parse_number_def)
    from parse_unsigned_append[OF this assms(2), of y] False Cons show ?thesis
      by (simp add: parse_number_def)
  qed
qed

lemma parse_value_Nil: "parse_value [] = None"
  by (subst parse_value.simps) simp

lemma parse_elements_Nil: "parse_elements [] = None"
  by (subst parse_elements.simps) (simp add: parse_value_Nil)

lemma parse_members_Nil: "parse_members [] = None"
  by (subst parse_members.simps) simp

lemma skip_ws_Nil: "skip_ws [] = []"
  by (simp add: skip_ws_def)

lemma parser_append:
  "(\<forall>v r. parse_value s = Some (v, r) \<longrightarrow>
        (r \<noteq> [] \<or> (\<exists>c t. s = c # t \<and> c \<noteq> CHR ''-'' \<and> \<not> is_digit c)) \<longrightarrow>
        parse_value (s @ y) = Some (v, r @ y))
   \<and> (\<forall>vs r. parse_elements s = Some (vs, r) \<longrightarrow> parse_elements (s @ y) = Some (vs, r @ y))
   \<and> (\<forall>kvs r. parse_members s = Some (kvs, r) \<longrightarrow> parse_members (s @ y) = Some (kvs, r @ y))"
proof (induction s rule: length_induct)
  case (1 s)
  then have ihE: "\<And>t vs r. length t < length s \<Longrightarrow> parse_elements t = Some (vs, r) \<Longrightarrow>
        parse_elements (t @ y) = Some (vs, r @ y)"
    and ihM: "\<And>t kvs r. length t < length s \<Longrightarrow> parse_members t = Some (kvs, r) \<Longrightarrow>
        parse_members (t @ y) = Some (kvs, r @ y)"
    and ihV: "\<And>t v r. length t < length s \<Longrightarrow> parse_value t = Some (v, r) \<Longrightarrow> r \<noteq> [] \<Longrightarrow>
        parse_value (t @ y) = Some (v, r @ y)"
    by blast+
  have P: "parse_value (s @ y) = Some (v, r @ y)"
    if a: "parse_value s = Some (v, r)"
      and c: "r \<noteq> [] \<or> (\<exists>c t. s = c # t \<and> c \<noteq> CHR ''-'' \<and> \<not> is_digit c)" for v r
  proof (cases s)
    case Nil
    with a show ?thesis by (simp add: parse_value_Nil)
  next
    case (Cons c t)
    consider (obj) "c = CHR ''{''" | (arr) "c \<noteq> CHR ''{''" "c = CHR ''[''"
      | (str) "c \<noteq> CHR ''{''" "c \<noteq> CHR ''[''" "c = CHR 0x22"
      | (num) "c \<noteq> CHR ''{''" "c \<noteq> CHR ''[''" "c \<noteq> CHR 0x22" "c = CHR ''-'' \<or> is_digit c"
      | (kw) "c \<noteq> CHR ''{''" "c \<noteq> CHR ''[''" "c \<noteq> CHR 0x22" "\<not> (c = CHR ''-'' \<or> is_digit c)"
      by blast
    then show ?thesis
    proof cases
      case obj
      from a obtain d r' where sk: "skip_ws t = d # r'"
        by (subst (asm) parse_value.simps) (auto simp: Cons obj split: list.splits)
      then have sky: "skip_ws (t @ y) = d # r' @ y"
        using skip_ws_append[of t y] by simp
      from sk have l: "length (d # r') < length s"
        using length_skip_ws[of t] Cons by simp
      show ?thesis
      proof (cases "d = CHR ''}''")
        case True
        with a sk have "r = r'" "v = JObj []"
          by (subst (asm) parse_value.simps, simp add: Cons obj)+
        with True sky show ?thesis
          by (subst parse_value.simps) (simp add: Cons obj)
      next
        case False
        with a sk obtain kvs where m: "parse_members (d # r') = Some (kvs, r)" and v: "v = JObj kvs"
          by (subst (asm) parse_value.simps) (auto simp: Cons obj split: option.splits)
        from ihM[OF l m] have "parse_members (d # r' @ y) = Some (kvs, r @ y)" by simp
        with False sky v show ?thesis
          by (subst parse_value.simps) (simp add: Cons obj)
      qed
    next
      case arr
      from a obtain d r' where sk: "skip_ws t = d # r'"
        by (subst (asm) parse_value.simps) (auto simp: Cons arr split: list.splits)
      then have sky: "skip_ws (t @ y) = d # r' @ y"
        using skip_ws_append[of t y] by simp
      from sk have l: "length (d # r') < length s"
        using length_skip_ws[of t] Cons by simp
      show ?thesis
      proof (cases "d = CHR '']''")
        case True
        with a sk have "r = r'" "v = JArr []"
          by (subst (asm) parse_value.simps, simp add: Cons arr)+
        with True sky show ?thesis
          by (subst parse_value.simps) (simp add: Cons arr)
      next
        case False
        with a sk obtain vs where m: "parse_elements (d # r') = Some (vs, r)" and v: "v = JArr vs"
          by (subst (asm) parse_value.simps) (auto simp: Cons arr split: option.splits)
        from ihE[OF l m] have "parse_elements (d # r' @ y) = Some (vs, r @ y)" by simp
        with False sky v show ?thesis
          by (subst parse_value.simps) (simp add: Cons arr)
      qed
    next
      case str
      with a obtain x where x: "parse_chars t = Some (x, r)" and v: "v = JStr x"
        by (subst (asm) parse_value.simps) (auto simp: Cons split: option.splits)
      from parse_chars_append[OF x, of y] v str show ?thesis
        by (subst parse_value.simps) (simp add: Cons)
    next
      case num
      with a obtain n where n: "parse_number s = Some (n, r)" and v: "v = JNum n"
        by (subst (asm) parse_value.simps) (auto simp: Cons split: option.splits)
      from c num Cons have "r \<noteq> []" by auto
      from parse_number_append[OF n this, of y] v num show ?thesis
        by (subst parse_value.simps) (simp add: Cons)
    next
      case kw
      with a consider (t) "take 4 s = ''true''" "v = JBool True" "r = drop 4 s"
        | (f) "take 5 s = ''false''" "v = JBool False" "r = drop 5 s"
        | (n) "take 4 s = ''null''" "v = JNull" "r = drop 4 s"
        by (subst (asm) parse_value.simps) (auto simp: Cons split: if_splits)
      then show ?thesis
      proof cases
        case t
        then have "s = ''true'' @ r"
          by (metis append_take_drop_id)
        then show ?thesis
          using t(2) by (subst parse_value.simps) (simp add: is_digit_def)
      next
        case f
        then have "s = ''false'' @ r"
          by (metis append_take_drop_id)
        then show ?thesis
          using f(2) by (subst parse_value.simps) (simp add: is_digit_def)
      next
        case n
        then have "s = ''null'' @ r"
          by (metis append_take_drop_id)
        then show ?thesis
          using n(2) by (subst parse_value.simps) (simp add: is_digit_def)
      qed
    qed
  qed
  have Q: "parse_elements (s @ y) = Some (vs, r @ y)"
    if a: "parse_elements s = Some (vs, r)" for vs r
  proof -
    from a obtain v r1 where v: "parse_value s = Some (v, r1)"
      by (subst (asm) parse_elements.simps) (auto split: option.splits)
    from parser_lengths[of s] v have l1: "length r1 < length s" by blast
    from a v l1 obtain c r2 where sk: "skip_ws r1 = c # r2"
      by (subst (asm) parse_elements.simps) (auto split: list.splits)
    then have r1: "r1 \<noteq> []"
      using skip_ws_Nil by auto
    from P[OF v] r1 have vy: "parse_value (s @ y) = Some (v, r1 @ y)" by simp
    from sk have sky: "skip_ws (r1 @ y) = c # r2 @ y"
      using skip_ws_append[of r1 y] by simp
    from sk have l2: "length r2 < length s"
      using length_skip_ws[of r1] l1 by simp
    show ?thesis
    proof (cases "c = CHR '',''")
      case True
      with a v l1 sk obtain vs' where e: "parse_elements (skip_ws r2) = Some (vs', r)"
        and vs: "vs = v # vs'"
        by (subst (asm) parse_elements.simps) (auto split: option.splits)
      have ne: "skip_ws r2 \<noteq> []"
        using e parse_elements_Nil by auto
      have "length (skip_ws r2) < length s"
        using length_skip_ws[of r2] l2 by simp
      from ihE[OF this e] have "parse_elements (skip_ws (r2 @ y)) = Some (vs', r @ y)"
        using skip_ws_append[OF ne, of y] by simp
      with True vy sky l1 vs show ?thesis
        by (subst parse_elements.simps) simp
    next
      case False
      with a v l1 sk have "r = r2" "vs = [v]" "c = CHR '']''"
        by (subst (asm) parse_elements.simps, auto split: if_splits)+
      with False vy sky l1 show ?thesis
        by (subst parse_elements.simps) simp
    qed
  qed
  have R: "parse_members (s @ y) = Some (kvs, r @ y)"
    if a: "parse_members s = Some (kvs, r)" for kvs r
  proof -
    from a obtain t where s: "s = CHR 0x22 # t"
      by (subst (asm) parse_members.simps) (auto split: list.splits if_splits)
    from a s obtain k r1 where k: "parse_chars t = Some (k, r1)"
      by (subst (asm) parse_members.simps) (auto split: option.splits)
    from parse_chars_length[OF k] s have l1: "length r1 < length s" by simp
    from a s k obtain r2 where sk: "skip_ws r1 = CHR '':'' # r2"
      by (subst (asm) parse_members.simps) (auto split: list.splits if_splits)
    then have sky: "skip_ws (r1 @ y) = CHR '':'' # r2 @ y"
      using skip_ws_append[of r1 y] by simp
    from sk have l2: "length (skip_ws r2) < length s"
      using length_skip_ws[of r1] length_skip_ws[of r2] l1 by simp
    from a s k sk obtain v r3 where v: "parse_value (skip_ws r2) = Some (v, r3)"
      by (subst (asm) parse_members.simps) (auto split: option.splits)
    then have ne2: "skip_ws r2 \<noteq> []"
      using parse_value_Nil by auto
    from parser_lengths[of "skip_ws r2"] v have l3: "length r3 < length (skip_ws r2)" by blast
    from a s k sk v l3 obtain c r4 where sk4: "skip_ws r3 = c # r4"
      by (subst (asm) parse_members.simps) (auto split: list.splits)
    then have r3: "r3 \<noteq> []"
      using skip_ws_Nil by auto
    from ihV[OF l2 v r3] have vy: "parse_value (skip_ws (r2 @ y)) = Some (v, r3 @ y)"
      using skip_ws_append[OF ne2, of y] by simp
    have l3y: "length (r3 @ y) < length (skip_ws (r2 @ y))"
      using l3 skip_ws_append[OF ne2, of y] by simp
    from sk4 have sk4y: "skip_ws (r3 @ y) = c # r4 @ y"
      using skip_ws_append[of r3 y] by simp
    from sk4 have l4: "length r4 < length s"
      using length_skip_ws[of r3] l3 l2 by simp
    show ?thesis
    proof (cases "c = CHR '',''")
      case True
      with a s k sk v l3 sk4 obtain kvs' where m: "parse_members (skip_ws r4) = Some (kvs', r)"
        and kvs: "kvs = (k, v) # kvs'"
        by (subst (asm) parse_members.simps) (auto split: option.splits)
      have ne: "skip_ws r4 \<noteq> []"
        using m parse_members_Nil by auto
      have "length (skip_ws r4) < length s"
        using length_skip_ws[of r4] l4 by simp
      from ihM[OF this m] have "parse_members (skip_ws (r4 @ y)) = Some (kvs', r @ y)"
        using skip_ws_append[OF ne, of y] by simp
      with True s parse_chars_append[OF k, of y] sky vy l3y sk4y kvs show ?thesis
        by (subst parse_members.simps) simp
    next
      case False
      with a s k sk v l3 sk4 have "r = r4" "kvs = [(k, v)]" "c = CHR ''}''"
        by (subst (asm) parse_members.simps, auto split: if_splits)+
      with False s parse_chars_append[OF k, of y] sky vy l3y sk4y show ?thesis
        by (subst parse_members.simps) simp
    qed
  qed
  from P Q R show ?case by blast
qed

text \<open>
  So no proper prefix of a complete JSON object is accepted by \<^verbatim>\<open>JSON.parse\<close>; in particular
  no proper prefix of a message as \<open>sendMessage\<close> encodes it.
\<close>

lemma proper_prefix_unparsable:
  assumes w: "parse_value (CHR ''{'' # t) = Some (v, [])"
    and p: "p @ x = CHR ''{'' # t" and x: "x \<noteq> []"
  shows "JSON_parse (TextDecoder_decode p) = None"
proof (cases p)
  case Nil
  then show ?thesis
    by (simp add: JSON_parse_def TextDecoder_decode_def skip_ws_def parse_value_Nil)
next
  case (Cons c p')
  with p have c: "c = CHR ''{''" by simp
  have d: "TextDecoder_decode p = p"
    by (simp add: TextDecoder_decode_def Cons c)
  have s: "skip_ws p = p"
    by (simp add: Cons c skip_ws_not_ws json_punctuation_not_ws)
  have "parse_value p = None"
  proof (cases "parse_value p")
    case None
    then show ?thesis .
  next
    case (Some a)
    obtain v' r where a: "a = (v', r)" by (cases a)
    have "\<exists>c t. p = c # t \<and> c \<noteq> CHR ''-'' \<and> \<not> is_digit c"
      by (simp add: Cons c is_digit_def)
    with parser_append[of p x] Some a have "parse_value (p @ x) = Some (v', r @ x)"
      by blast
    with w p x show ?thesis by simp
  qed
  with d s show ?thesis
    by (simp add: JSON_parse_def)
qed

lemma parse_value_encoded_message:
  assumes "\<bar>now\<bar> \<le> 2 ^ 53"
  shows "\<exists>t'. TextEncoder_encode (JSON_stringify fmt (new_message u t now)) = CHR ''{'' # t'
             \<and> parse_value (CHR ''{'' # t') = Some (new_message u t now, [])"
  using parse_value_new_message[of u t now "[]"]
  by (simp add: TextEncoder_encode_def stringify_new_message[OF assms])

lemma truncated_message_unparsable:
  assumes "\<bar>now\<bar> \<le> 2 ^ 53"
    and "p @ x = TextEncoder_encode (JSON_stringify fmt (new_message u t now))" and "x \<noteq> []"
  shows "JSON_parse (TextDecoder_decode p) = None"
proof -
  from parse_value_encoded_message[OF assms(1), of fmt u t] obtain t'
    where "TextEncoder_encode (JSON_stringify fmt (new_message u t now)) = CHR ''{'' # t'"
      and "parse_value (CHR ''{'' # t') = Some (new_message u t now, [])"
    by blast
  with assms(2,3) show ?thesis
    using proper_prefix_unparsable[of t' "new_message u t now" p x] by simp
qed

lemma console_error_fields:
  "messages_store (console_error s st) = messages_store st"
  "messageFeed (console_error s st) = messageFeed st"
  "key_generator (console_error s st) = key_generator st"
  by (simp_all add: console_error_def)

lemma bob_data:
  "TextEncoder_encode (JSON_stringify no_fmt (new_message ''bob'' ''yo'' 2000)) =
     ''{\"sender\":\"bob\",\"text\":\"yo\",\"timestamp\":2000}''"
  by code_simp

text \<open>
  C2, as the program has it. A payload whose text \<^verbatim>\<open>JSON.parse\<close> rejects is dropped: the
  handler logs the failure and changes nothing else; the store and the feed are as they
  were. A truncated message is such a payload: whenever the bytes received are a proper
  prefix \<open>val'\<close> of the bytes \<open>sendMessage\<close> writes for a message, whatever its sender and
  text, \<^verbatim>\<open>JSON.parse\<close> rejects them.
\<close>

theorem unparsable_payload_dropped:
  "(JSON_parse (TextDecoder_decode val) = None \<longrightarrow>
      handleIncomingMessage fmt io_ok val st =
        console_error ''Failed to parse incoming message:'' st
      \<and> messages_store (handleIncomingMessage fmt io_ok val st) = messages_store st
      \<and> key_generator (handleIncomingMessage fmt io_ok val st) = key_generator st
      \<and> messageFeed (handleIncomingMessage fmt io_ok val st) = messageFeed st)
   \<and> (\<bar>now\<bar> \<le> 2 ^ 53 \<and> x \<noteq> [] \<and>
      val' @ x = TextEncoder_encode (JSON_stringify fmt' (new_message u t now)) \<longrightarrow>
      JSON_parse (TextDecoder_decode val') = None)"
  using truncated_message_unparsable[of now val' x fmt' u t]
  by (simp add: handleIncomingMessage_def console_error_fields)

theorem unparsable_payload_dropped_witness:
  "JSON_parse (TextDecoder_decode truncated_payload) = None
   \<and> truncated_payload @ ''o\",\"timestamp\":2000}'' =
       TextEncoder_encode (JSON_stringify no_fmt (new_message ''bob'' ''yo'' 2000))
   \<and> handleIncomingMessage no_fmt True truncated_payload alice_state =
       console_error ''Failed to parse incoming message:'' alice_state
   \<and> messages_store (handleIncomingMessage no_fmt True truncated_payload alice_state) = []
   \<and> messageFeed (handleIncomingMessage no_fmt True truncated_payload alice_state) = []"
proof -
  have a: "truncated_payload @ ''o\",\"timestamp\":2000}'' =
       TextEncoder_encode (JSON_stringify no_fmt (new_message ''bob'' ''yo'' 2000))"
    by (simp add: bob_data truncated_payload_def)
  have b: "\<bar>2000 :: int\<bar> \<le> 2 ^ 53" "''o\",\"timestamp\":2000}'' \<noteq> []"
    by simp_all
  have c: "messages_store alice_state = []" "messageFeed alice_state = []"
    by (simp_all add: alice_state_def initial_state_def)
  note t = unparsable_payload_dropped[of truncated_payload no_fmt True alice_state 2000
      "''o\",\"timestamp\":2000}''" truncated_payload no_fmt "''bob''" "''yo''"]
  from t a b have n: "JSON_parse (TextDecoder_decode truncated_payload) = None"
    by blast
  with t have "handleIncomingMessage no_fmt True truncated_payload alice_state =
       console_error ''Failed to parse incoming message:'' alice_state"
    by blast
  with n a c show ?thesis
    by (simp add: console_error_fields)
qed

text \<open>
  C2 as stated fails for well-formed JSON that is not a complete message: a payload with
  only a \<^verbatim>\<open>sender\<close> is stored and rendered (its text shown as \<^verbatim>\<open>undefined\<close>), and so is a
  payload whose fields have the wrong types. The handler checks no field but \<^verbatim>\<open>sender\<close>.
\<close>

theorem partial_message_stored_counterexample:
  "messages_store (handleIncomingMessage no_fmt True partial_payload alice_state) =
     [(KNum 1, JObj [(''sender'', JStr ''bob''), (''id'', JNum 1)])]
   \<and> messageFeed (handleIncomingMessage no_fmt True partial_payload alice_state) =
     [\<lparr>className = ''message-bubble other'', innerHTML = bubble_markup ''bob'' ''undefined''\<rparr>]
   \<and> messages_store (handleIncomingMessage no_fmt True mistyped_payload alice_state) =
     [(KNum 1, JObj [(''sender'', JNum 7), (''text'', JBool True), (''timestamp'', JStr ''soon''),
                     (''id'', JNum 1)])]"
proof -
  have "handleIncomingMessage no_fmt True partial_payload alice_state =
      renderMessage no_fmt (JObj [(''sender'', JStr ''bob'')]) (Some False)
             ((console_log ''Received message:'' alice_state)
                \<lparr>messages_store :=
                   messages_store alice_state @
                     [(KNum (of_nat (key_generator alice_state)),
                       inject_id (key_generator alice_state) (JObj [(''sender'', JStr ''bob'')]))],
                 key_generator := key_generator alice_state + 1\<rparr>)"
    by (rule handleIncoming_stores[OF parse_partial_payload])
       (simp_all add: alice_state_def initial_state_def sender_is_user_def)
  moreover
  have "handleIncomingMessage no_fmt True mistyped_payload alice_state =
      renderMessage no_fmt
        (JObj [(''sender'', JNum 7), (''text'', JBool True), (''timestamp'', JStr ''soon'')])
        (Some False)
             ((console_log ''Received message:'' alice_state)
                \<lparr>messages_store :=
                   messages_store alice_state @
                     [(KNum (of_nat (key_generator alice_state)),
                       inject_id (key_generator alice_state)
                         (JObj [(''sender'', JNum 7), (''text'', JBool True),
                                (''timestamp'', JStr ''soon'')]))],
                 key_generator := key_generator alice_state + 1\<rparr>)"
    by (rule handleIncoming_stores[OF parse_mistyped_payload])
       (simp_all add: alice_state_def initial_state_def sender_is_user_def)
  ultimately show ?thesis
    by (simp add: renderMessage_fields)
       (simp add: renderMessage_def template_value_def alice_state_def initial_state_def
          inject_id_def console_log_def)
qed

end
